theory Spec2Isabelle
  imports Main
begin

section \<open>ObjectCache (src/lib/object-cache.ts): a read-through cache with timed expiry\<close>

text \<open>
  The class \<^verbatim>\<open>ObjectCache\<close> keeps three private fields besides its configuration:
  \<^verbatim>\<open>cache\<close> (a Map from identifiers to objects), \<^verbatim>\<open>expireTimestamps\<close> (a sorted list
  of records \<^verbatim>\<open>{timestamp, id}\<close>) and \<^verbatim>\<open>expireTimer\<close> (the handle of the pending
  timeout). Objects are JavaScript objects, so they live in a store and are reached through
  references; the model keeps that store explicit, because the class clones every object
  it takes in or hands out and the point of the clones is the absence of aliasing.

  Numbers: \<^verbatim>\<open>Date.now()\<close> is an integral count of milliseconds and the expiry duration is
  a count of milliseconds, so timestamps and delays are \<^typ>\<open>int\<close>. Every reading of the
  clock is a parameter of the operation that reads it.
\<close>

subsection \<open>Objects and the object store\<close>

type_synonym addr = nat

text \<open>
  An \<^verbatim>\<open>ioBroker.Object\<close>: the field \<^verbatim>\<open>_id\<close>, which is the only field the cache reads, and
  everything else as one opaque value.
\<close>

record 'v jsobj =
  oid :: string
  body :: 'v

type_synonym handle = nat

text \<open>
  The world around one cache instance: the object store (\<open>heap\<close>, with \<open>nxt\<close> the next
  unused reference), the timeouts of the runtime that were set by this instance and have
  neither fired nor been cleared (handle and delay; the callback of each is
  \<^verbatim>\<open>() => this.expire()\<close>), the next unused timer handle, and the identifiers the backing
  store has been queried for, in order.
\<close>

record 'v world =
  heap :: "addr \<Rightarrow> 'v jsobj"
  nxt :: addr
  timeouts :: "(handle \<times> int) list"
  nextHandle :: handle
  queries :: "string list"

text \<open>A party other than the cache creates an object.\<close>

definition new_object :: "'v jsobj \<Rightarrow> 'v world \<Rightarrow> addr \<times> 'v world" where
  "new_object ob w = (nxt w, w\<lparr>heap := (heap w)(nxt w := ob), nxt := Suc (nxt w)\<rparr>)"

text \<open>A party assigns to the fields of an object it holds a reference to.\<close>

definition mutate :: "addr \<Rightarrow> 'v jsobj \<Rightarrow> 'v world \<Rightarrow> 'v world" where
  "mutate a ob w = w\<lparr>heap := (heap w)(a := ob)\<rparr>"

text \<open>
  Modelled from the spec: \<^verbatim>\<open>extend({}, obj)\<close> comes from the package alcalzone-shared,
  which is not part of the sources. The spec takes a cached object as "an opaque, clonable
  value" and every copy as "a fresh, independent copy": a new object, at an unused
  reference, with the fields of \<^verbatim>\<open>obj\<close>.
\<close>

definition extend_obj :: "addr \<Rightarrow> 'v world \<Rightarrow> addr \<times> 'v world" where
  "extend_obj a w = (nxt w, w\<lparr>heap := (heap w)(nxt w := heap w a), nxt := Suc (nxt w)\<rparr>)"

text \<open>\<^verbatim>\<open>setTimeout(() => this.expire(), delay)\<close> and \<^verbatim>\<open>clearTimeout(handle)\<close>.\<close>

definition setTimeout :: "int \<Rightarrow> 'v world \<Rightarrow> handle \<times> 'v world" where
  "setTimeout delay w =
     (nextHandle w,
      w\<lparr>timeouts := timeouts w @ [(nextHandle w, delay)], nextHandle := Suc (nextHandle w)\<rparr>)"

definition clearTimeout :: "handle \<Rightarrow> 'v world \<Rightarrow> 'v world" where
  "clearTimeout h w = w\<lparr>timeouts := filter (\<lambda>p. fst p \<noteq> h) (timeouts w)\<rparr>"

subsection \<open>The expiry index\<close>

text \<open>\<^verbatim>\<open>interface ExpireTimestamp { timestamp: number; id: string; }\<close>\<close>

record ExpireTimestamp =
  timestamp :: int
  id' :: string

text \<open>
  Modelled from the spec: \<^verbatim>\<open>SortedList\<close> comes from the package alcalzone-shared, which
  is not part of the sources. The spec describes the Expiry Index as "ordered by timestamp
  ascending", "duplicate-tolerant", with "insert, remove-by-identity, and peek/pop of the
  earliest entry". The list is kept in ascending order of timestamp; \<open>sl_add\<close> puts a record
  in front of the first record whose timestamp is not smaller, \<open>sl_remove\<close> takes one given
  record out, \<open>sl_shift\<close> takes the first record off (nothing on the empty list).
  Records are values here; \<^verbatim>\<open>rememberForExpiry\<close> removes the record that \<^verbatim>\<open>find\<close> returned,
  the first one with the identifier, and the first record equal to it is that record.
\<close>

fun sl_add :: "ExpireTimestamp \<Rightarrow> ExpireTimestamp list \<Rightarrow> ExpireTimestamp list" where
  "sl_add x [] = [x]"
| "sl_add x (y # ys) = (if timestamp x \<le> timestamp y then x # y # ys else y # sl_add x ys)"

definition sl_remove :: "ExpireTimestamp \<Rightarrow> ExpireTimestamp list \<Rightarrow> ExpireTimestamp list" where
  "sl_remove x xs = remove1 x xs"

definition sl_shift :: "ExpireTimestamp list \<Rightarrow> ExpireTimestamp option \<times> ExpireTimestamp list" where
  "sl_shift xs = (case xs of [] \<Rightarrow> (None, []) | y # ys \<Rightarrow> (Some y, ys))"

subsection \<open>The fields of an ObjectCache\<close>

text \<open>
  \<^verbatim>\<open>expiryDuration: number | false\<close> is \<open>None\<close> for \<^verbatim>\<open>false\<close>. \<^verbatim>\<open>expireTimer\<close> is \<open>None\<close>
  when the field is \<^verbatim>\<open>undefined\<close> or \<^verbatim>\<open>null\<close> (the code tests it with \<^verbatim>\<open>== null\<close> only).
\<close>

record ObjectCache =
  expiryDuration :: "int option"
  cache :: "string \<rightharpoonup> addr"
  expireTimestamps :: "ExpireTimestamp list"
  expireTimer :: "handle option"

definition construct :: "int option \<Rightarrow> ObjectCache" where
  "construct d = \<lparr>expiryDuration = d, cache = Map.empty, expireTimestamps = [], expireTimer = None\<rparr>"

subsection \<open>The methods\<close>

text \<open>\<^verbatim>\<open>invalidateObject(id) { this.cache.delete(id); }\<close>\<close>

definition invalidateObject :: "string \<Rightarrow> ObjectCache \<Rightarrow> ObjectCache" where
  "invalidateObject i s = s\<lparr>cache := (cache s)(i := None)\<rparr>"

text \<open>
  \<^verbatim>\<open>setTimerForNextExpiry\<close>: returns at once on an empty index; otherwise shifts the first
  record off, adds it again, reads the clock and sets a timeout of
  \<^verbatim>\<open>Math.max(timeDelta, 100)\<close>. After the test of the length \<^verbatim>\<open>shift()\<close> always yields a
  record; the branch for \<open>None\<close> is never taken.
\<close>

definition setTimerForNextExpiry :: "int \<Rightarrow> ObjectCache \<times> 'v world \<Rightarrow> ObjectCache \<times> 'v world" where
  "setTimerForNextExpiry now sw =
     (case sw of (s, w) \<Rightarrow>
        (if length (expireTimestamps s) = 0 then (s, w)
         else
           (case sl_shift (expireTimestamps s) of
              (None, _) \<Rightarrow> (s, w)
            | (Some nextTimestamp, rest) \<Rightarrow>
                (let s1 = s\<lparr>expireTimestamps := sl_add nextTimestamp rest\<rparr>;
                     timeDelta = timestamp nextTimestamp - now;
                     (h, w1) = setTimeout (max timeDelta 100) w
                 in (s1\<lparr>expireTimer := Some h\<rparr>, w1)))))"

text \<open>
  \<^verbatim>\<open>expire\<close>, the callback of every timeout. \<open>now1\<close> is the clock read in \<^verbatim>\<open>expire\<close>
  itself, \<open>now2\<close> the one read afterwards in \<^verbatim>\<open>setTimerForNextExpiry\<close>.
\<close>

definition expire :: "int \<Rightarrow> int \<Rightarrow> ObjectCache \<times> 'v world \<Rightarrow> ObjectCache \<times> 'v world" where
  "expire now1 now2 sw =
     (case sw of (s, w) \<Rightarrow>
        (let s0 = s\<lparr>expireTimer := None\<rparr> in
         if length (expireTimestamps s0) = 0 then (s0, w)
         else
           (case sl_shift (expireTimestamps s0) of
              (None, _) \<Rightarrow> (s0, w)
            | (Some nextTimestamp, rest) \<Rightarrow>
                (let s1 = s0\<lparr>expireTimestamps := rest\<rparr>;
                     timeDelta = timestamp nextTimestamp - now1;
                     s2 = (if timeDelta \<le> 0 then invalidateObject (id' nextTimestamp) s1
                           else s1\<lparr>expireTimestamps := sl_add nextTimestamp (expireTimestamps s1)\<rparr>)
                 in setTimerForNextExpiry now2 (s2, w)))))"

text \<open>
  \<^verbatim>\<open>rememberForExpiry(id)\<close>: nothing when the duration is not a number; otherwise the
  first record with this identifier, if any, is removed, a record with timestamp
  \<^verbatim>\<open>Date.now() + this.expiryDuration\<close> is added, and a timeout of the full duration is set
  when \<^verbatim>\<open>expireTimer == null\<close>.
\<close>

definition rememberForExpiry :: "string \<Rightarrow> int \<Rightarrow> ObjectCache \<times> 'v world \<Rightarrow> ObjectCache \<times> 'v world" where
  "rememberForExpiry i now sw =
     (case sw of (s, w) \<Rightarrow>
        (case expiryDuration s of
           None \<Rightarrow> (s, w)
         | Some d \<Rightarrow>
             (let existingTimestamp = find (\<lambda>ets. id' ets = i) (expireTimestamps s);
                  l1 = (case existingTimestamp of
                          None \<Rightarrow> expireTimestamps s
                        | Some e \<Rightarrow> sl_remove e (expireTimestamps s));
                  newTimestamp = \<lparr>timestamp = now + d, id' = i\<rparr>;
                  s1 = s\<lparr>expireTimestamps := sl_add newTimestamp l1\<rparr>
              in if expireTimer s1 = None
                 then (let (h, w1) = setTimeout d w in (s1\<lparr>expireTimer := Some h\<rparr>, w1))
                 else (s1, w))))"

text \<open>
  \<^verbatim>\<open>storeObject(obj)\<close>: clone, \<^verbatim>\<open>this.cache.set(clone._id, clone)\<close>,
  \<^verbatim>\<open>this.rememberForExpiry(clone._id)\<close>. The argument is the reference the caller holds.
\<close>

definition storeObject :: "addr \<Rightarrow> int \<Rightarrow> ObjectCache \<times> 'v world \<Rightarrow> ObjectCache \<times> 'v world" where
  "storeObject obj now sw =
     (case sw of (s, w) \<Rightarrow>
        (let (clone, w1) = extend_obj obj w;
             key = oid (heap w1 clone);
             s1 = s\<lparr>cache := (cache s)(key \<mapsto> clone)\<rparr>
         in rememberForExpiry key now (s1, w1)))"

text \<open>
  \<^verbatim>\<open>retrieveObject(id)\<close>: a clone of the cached object, or \<^verbatim>\<open>undefined\<close> (no return
  statement is reached) when the identifier is not cached.
\<close>

definition retrieveObject :: "string \<Rightarrow> ObjectCache \<times> 'v world \<Rightarrow> addr option \<times> 'v world" where
  "retrieveObject i sw =
     (case sw of (s, w) \<Rightarrow>
        (case cache s i of
           None \<Rightarrow> (None, w)
         | Some a \<Rightarrow> (let (c, w1) = extend_obj a w in (Some c, w1))))"

text \<open>
  What \<^verbatim>\<open>await _.adapter.$getForeignObject(id)\<close> comes back with: the promise is rejected
  with some error, or it resolves to \<^verbatim>\<open>null\<close>/\<^verbatim>\<open>undefined\<close>, or to an object of the backing
  store. The backing store is a parameter: a function from the identifier to the outcome.
\<close>

datatype ('e, 'v) fetched = Rejected 'e | Resolved "'v jsobj option"

text \<open>
  The part of \<^verbatim>\<open>getObject\<close> after the \<^verbatim>\<open>await\<close>, once the promise has resolved to \<open>ret\<close>:
  \<^verbatim>\<open>if (ret != null) this.storeObject(ret); return this.retrieveObject(id);\<close>
  The object the backing store resolved to is an object of its own, at a new reference.
\<close>

definition getObject_resume ::
  "'v jsobj option \<Rightarrow> string \<Rightarrow> int \<Rightarrow> ObjectCache \<times> 'v world \<Rightarrow> addr option \<times> ObjectCache \<times> 'v world" where
  "getObject_resume ret i now sw =
     (case sw of (s, w) \<Rightarrow>
        (let (s1, w1) = (case ret of
                           None \<Rightarrow> (s, w)
                         | Some ob \<Rightarrow> (let (r, w0) = new_object ob w in storeObject r now (s, w0)));
             (res, w2) = retrieveObject i (s1, w1)
         in (res, s1, w2)))"

text \<open>
  \<^verbatim>\<open>getObject(id)\<close>, run from the call to the settlement of its promise with no other
  operation of the cache in between: \<open>Inl e\<close> is the promise rejected with \<open>e\<close>, \<open>Inr r\<close> the
  promise resolved to \<open>r\<close> (\<open>None\<close> for \<^verbatim>\<open>undefined\<close>). \<open>now\<close> is the clock at the time
  \<^verbatim>\<open>storeObject\<close> runs.
\<close>

definition getObject ::
  "(string \<Rightarrow> ('e, 'v) fetched) \<Rightarrow> string \<Rightarrow> int \<Rightarrow> ObjectCache \<times> 'v world
     \<Rightarrow> ('e + addr option) \<times> ObjectCache \<times> 'v world" where
  "getObject db i now sw =
     (case sw of (s, w) \<Rightarrow>
        (if cache s i = None then
           (let w0 = w\<lparr>queries := queries w @ [i]\<rparr> in
            case db i of
              Rejected e \<Rightarrow> (Inl e, s, w0)
            | Resolved ret \<Rightarrow>
                (let (res, s1, w1) = getObject_resume ret i now (s, w0) in (Inr res, s1, w1)))
         else (let (res, w1) = retrieveObject i (s, w) in (Inr res, s, w1))))"

text \<open>\<^verbatim>\<open>updateObject(obj) { this.storeObject(obj); }\<close>\<close>

definition updateObject :: "addr \<Rightarrow> int \<Rightarrow> ObjectCache \<times> 'v world \<Rightarrow> ObjectCache \<times> 'v world" where
  "updateObject obj now sw = storeObject obj now sw"

text \<open>
  \<^verbatim>\<open>dispose()\<close>: the timeout is cleared and the field reset when it is not \<^verbatim>\<open>null\<close>; the
  Map is cleared. \<^verbatim>\<open>expireTimestamps\<close> is not touched.
\<close>

definition dispose :: "ObjectCache \<times> 'v world \<Rightarrow> ObjectCache \<times> 'v world" where
  "dispose sw =
     (case sw of (s, w) \<Rightarrow>
        (let (s1, w1) = (case expireTimer s of
                           None \<Rightarrow> (s, w)
                         | Some h \<Rightarrow> (s\<lparr>expireTimer := None\<rparr>, clearTimeout h w))
         in (s1\<lparr>cache := Map.empty\<rparr>, w1)))"

subsection \<open>Runs of a cache\<close>

text \<open>
  What can happen to a cache after its construction: the public methods are called, a
  pending timeout fires, and a \<^verbatim>\<open>getObject\<close> that was suspended at its \<^verbatim>\<open>await\<close> while
  other operations ran is resumed. A caller of \<^verbatim>\<open>updateObject\<close> passes an object of its
  own. The runtime fires only timeouts that are pending, and a timeout that fires is no
  longer pending when its callback runs.
\<close>

datatype ('e, 'v) op =
    GetObject "string \<Rightarrow> ('e, 'v) fetched" string int
  | Resume "'v jsobj option" string int
  | UpdateObject "'v jsobj" int
  | InvalidateObject string
  | Dispose
  | TimerFire handle int int

fun apply_op :: "('e, 'v) op \<Rightarrow> ObjectCache \<times> 'v world \<Rightarrow> (ObjectCache \<times> 'v world) option" where
  "apply_op (GetObject db i now) sw = Some (snd (getObject db i now sw))"
| "apply_op (Resume ret i now) sw = Some (snd (getObject_resume ret i now sw))"
| "apply_op (UpdateObject ob now) (s, w) =
     (let (a, w0) = new_object ob w in Some (updateObject a now (s, w0)))"
| "apply_op (InvalidateObject i) (s, w) = Some (invalidateObject i s, w)"
| "apply_op Dispose sw = Some (dispose sw)"
| "apply_op (TimerFire h now1 now2) (s, w) =
     (if h \<in> fst ` set (timeouts w) then Some (expire now1 now2 (s, clearTimeout h w)) else None)"

fun run :: "('e, 'v) op list \<Rightarrow> ObjectCache \<times> 'v world \<Rightarrow> (ObjectCache \<times> 'v world) option" where
  "run [] sw = Some sw"
| "run (x # xs) sw = (case apply_op x sw of None \<Rightarrow> None | Some sw' \<Rightarrow> run xs sw')"

text \<open>A world in which no timeout of the cache is pending, as at construction.\<close>

definition world0 :: "'v jsobj \<Rightarrow> 'v world" where
  "world0 ob = \<lparr>heap = (\<lambda>_. ob), nxt = 0, timeouts = [], nextHandle = 0, queries = []\<rparr>"

subsection \<open>Predicates on the state of a cache\<close>

text \<open>
  \<open>forget i\<close> is the index after the first two statements of \<^verbatim>\<open>rememberForExpiry(i)\<close>:
  the first record with the identifier, if there is one, has been removed.
\<close>

definition forget :: "string \<Rightarrow> ExpireTimestamp list \<Rightarrow> ExpireTimestamp list" where
  "forget i xs = (case find (\<lambda>ets. id' ets = i) xs of None \<Rightarrow> xs | Some e \<Rightarrow> sl_remove e xs)"

text \<open>
  \<open>index_inv\<close>: the index is in ascending order of timestamp and holds at most one record
  for an identifier. \<open>timer_inv\<close>: the pending timeouts of the instance are exactly the one
  whose handle is in \<^verbatim>\<open>expireTimer\<close>, none when the field is empty. \<open>armed_inv\<close>: a set
  timer has a record to wait for. \<open>pending_inv\<close>: a record in the index has a timer set
  for it. \<open>heap_inv\<close>: every cached reference is a reference in use.
\<close>

definition index_inv :: "ObjectCache \<Rightarrow> bool" where
  "index_inv s =
     (sorted (map timestamp (expireTimestamps s)) \<and> distinct (map id' (expireTimestamps s)))"

definition timer_inv :: "ObjectCache \<times> 'v world \<Rightarrow> bool" where
  "timer_inv sw =
     (case sw of (s, w) \<Rightarrow>
        map fst (timeouts w) = (case expireTimer s of None \<Rightarrow> [] | Some h \<Rightarrow> [h]))"

definition armed_inv :: "ObjectCache \<Rightarrow> bool" where
  "armed_inv s = (expireTimer s \<noteq> None \<longrightarrow> expireTimestamps s \<noteq> [])"

definition pending_inv :: "ObjectCache \<Rightarrow> bool" where
  "pending_inv s = (expireTimestamps s \<noteq> [] \<longrightarrow> expireTimer s \<noteq> None)"

definition heap_inv :: "ObjectCache \<times> 'v world \<Rightarrow> bool" where
  "heap_inv sw = (case sw of (s, w) \<Rightarrow> \<forall>k a. cache s k = Some a \<longrightarrow> a < nxt w)"

definition wf :: "ObjectCache \<times> 'v world \<Rightarrow> bool" where
  "wf sw = (index_inv (fst sw) \<and> timer_inv sw \<and> armed_inv (fst sw) \<and> heap_inv sw)"

text \<open>
  \<open>contents\<close>: what the entry store holds, by value. \<open>returned\<close>: the object a settled
  \<open>getObject\<close> resolved to, by value. \<open>external\<close>: a reference in use that the entry store
  does not hold, as are the references of all parties other than the cache. \<open>grows\<close>
  relates two states when every reference in the later entry store either was in the
  earlier one under the same identifier or was not in use then.
\<close>

definition contents :: "ObjectCache \<times> 'v world \<Rightarrow> string \<rightharpoonup> 'v jsobj" where
  "contents sw = (\<lambda>k. map_option (heap (snd sw)) (cache (fst sw) k))"

definition returned :: "('e + addr option) \<times> ObjectCache \<times> 'v world \<Rightarrow> 'v jsobj option" where
  "returned g =
     (case fst g of
        Inl e \<Rightarrow> None
      | Inr res \<Rightarrow> map_option (heap (snd (snd g))) res)"

definition external :: "addr \<Rightarrow> ObjectCache \<times> 'v world \<Rightarrow> bool" where
  "external x sw = (x < nxt (snd sw) \<and> (\<forall>k. cache (fst sw) k \<noteq> Some x))"

definition grows :: "ObjectCache \<times> 'v world \<Rightarrow> ObjectCache \<times> 'v world \<Rightarrow> bool" where
  "grows sw sw' =
     (nxt (snd sw) \<le> nxt (snd sw') \<and>
      (\<forall>k c. cache (fst sw') k = Some c \<longrightarrow>
         cache (fst sw) k = Some c \<or> (nxt (snd sw) \<le> c \<and> c < nxt (snd sw'))))"

subsection \<open>Sample data\<close>

text \<open>
  Two objects, and backing stores that resolve every identifier to the first object, to
  the second, to nothing, or reject every query.
\<close>

definition obj_a :: "nat jsobj" where
  "obj_a = \<lparr>oid = ''a'', body = 1\<rparr>"

definition obj_b :: "nat jsobj" where
  "obj_b = \<lparr>oid = ''b'', body = 2\<rparr>"

definition db_a :: "string \<Rightarrow> (unit, nat) fetched" where
  "db_a i = Resolved (Some obj_a)"

definition db_b :: "string \<Rightarrow> (unit, nat) fetched" where
  "db_b i = Resolved (Some obj_b)"


definition db_fail :: "string \<Rightarrow> (unit, nat) fetched" where
  "db_fail i = Rejected ()"

text \<open>
  A cache that holds copies of both sample objects, with their expiry records and its timer
  set, and the world around it; and the run that leads to them: two callers store the
  sample objects, at times 0 and 10, in a new cache with an expiry duration of 1000.
\<close>

definition cache_ab :: ObjectCache where
  "cache_ab = \<lparr>expiryDuration = Some 1000, cache = [''a'' \<mapsto> 1, ''b'' \<mapsto> 3],
               expireTimestamps = [\<lparr>timestamp = 1000, id' = ''a''\<rparr>, \<lparr>timestamp = 1010, id' = ''b''\<rparr>],
               expireTimer = Some 0\<rparr>"

definition world_ab :: "nat world" where
  "world_ab = \<lparr>heap = (\<lambda>_. obj_a)(2 := obj_b, 3 := obj_b), nxt = 4, timeouts = [(0, 1000)],
               nextHandle = 1, queries = []\<rparr>"

definition trace_ab :: "(unit, nat) op list" where
  "trace_ab = [UpdateObject obj_a 0, UpdateObject obj_b 10]"

section \<open>Properties\<close>

subsection \<open>The expiry index\<close>

lemma sl_add_insort: "sl_add x xs = insort_key timestamp x xs"
  by (induction xs) auto

lemma sl_add_head: "sorted (map timestamp (e # rest)) \<Longrightarrow> sl_add e rest = e # rest"
  by (cases rest) auto

lemma sorted_sl_add: "sorted (map timestamp (sl_add x xs)) = sorted (map timestamp xs)"
  by (simp add: sl_add_insort sorted_insort_key)

lemma set_sl_add: "set (sl_add x xs) = insert x (set xs)"
  by (simp add: sl_add_insort set_insort_key)

lemma distinct_sl_add:
  "distinct (map id' (sl_add x xs)) = (id' x \<notin> id' ` set xs \<and> distinct (map id' xs))"
  by (induction xs) (auto simp: set_sl_add)

lemma sl_add_not_Nil: "sl_add x xs \<noteq> []"
  by (cases xs) auto

lemma filter_sl_add_other: "\<not> P x \<Longrightarrow> filter P (sl_add x xs) = filter P xs"
  by (induction xs) auto

lemma filter_sl_add_self: "P x \<Longrightarrow> filter P xs = [] \<Longrightarrow> filter P (sl_add x xs) = [x]"
  by (induction xs) (auto split: if_splits)

lemma forget_Cons:
  "forget i (x # xs) = (if id' x = i then xs else x # forget i xs)"
  by (auto simp: forget_def sl_remove_def split: option.splits dest: find_Some_iff[THEN iffD1])

lemma forget_Nil: "forget i [] = []"
  by (simp add: forget_def)

lemma set_forget: "set (forget i xs) \<subseteq> set xs"
  by (induction xs) (auto simp: forget_Cons forget_Nil)

lemma sorted_forget: "sorted (map timestamp xs) \<Longrightarrow> sorted (map timestamp (forget i xs))"
proof (induction xs)
  case Nil
  then show ?case by (simp add: forget_def)
next
  case (Cons x xs)
  then show ?case using set_forget[of i xs] by (auto simp: forget_Cons)
qed

lemma distinct_forget:
  "distinct (map id' xs) \<Longrightarrow> distinct (map id' (forget i xs)) \<and> i \<notin> id' ` set (forget i xs)"
proof (induction xs)
  case Nil
  then show ?case by (simp add: forget_def)
next
  case (Cons x xs)
  then show ?case using set_forget[of i xs] by (auto simp: forget_Cons)
qed

subsection \<open>The methods in closed form\<close>

lemma rememberForExpiry_disabled:
  "expiryDuration s = None \<Longrightarrow> rememberForExpiry i now (s, w) = (s, w)"
  by (simp add: rememberForExpiry_def)

lemma rememberForExpiry_enabled:
  "expiryDuration s = Some d \<Longrightarrow>
   rememberForExpiry i now (s, w) =
     (let l = sl_add \<lparr>timestamp = now + d, id' = i\<rparr> (forget i (expireTimestamps s))
      in case expireTimer s of
           None \<Rightarrow> (s\<lparr>expireTimestamps := l, expireTimer := Some (nextHandle w)\<rparr>, snd (setTimeout d w))
         | Some h \<Rightarrow> (s\<lparr>expireTimestamps := l\<rparr>, w))"
  by (auto simp: rememberForExpiry_def forget_def setTimeout_def Let_def split: option.splits)

lemma setTimerForNextExpiry_empty:
  "expireTimestamps s = [] \<Longrightarrow> setTimerForNextExpiry now (s, w) = (s, w)"
  by (simp add: setTimerForNextExpiry_def sl_shift_def)

lemma setTimerForNextExpiry_sorted:
  "expireTimestamps s = e # rest \<Longrightarrow> sorted (map timestamp (e # rest)) \<Longrightarrow>
   setTimerForNextExpiry now (s, w) =
     (s\<lparr>expireTimer := Some (nextHandle w)\<rparr>, snd (setTimeout (max (timestamp e - now) 100) w))"
  using sl_add_head[of e rest]
  by (simp add: setTimerForNextExpiry_def sl_shift_def setTimeout_def Let_def)

lemma expire_empty:
  "expireTimestamps s = [] \<Longrightarrow> expire now1 now2 (s, w) = (s\<lparr>expireTimer := None\<rparr>, w)"
  by (simp add: expire_def sl_shift_def)

lemma expire_due:
  "expireTimestamps s = e # rest \<Longrightarrow> timestamp e \<le> now1 \<Longrightarrow>
   expire now1 now2 (s, w) =
     setTimerForNextExpiry now2
       (s\<lparr>expireTimer := None, expireTimestamps := rest, cache := (cache s)(id' e := None)\<rparr>, w)"
  by (simp add: expire_def sl_shift_def invalidateObject_def Let_def)

lemma expire_not_due:
  "expireTimestamps s = e # rest \<Longrightarrow> sorted (map timestamp (e # rest)) \<Longrightarrow> now1 < timestamp e \<Longrightarrow>
   expire now1 now2 (s, w) =
     (s\<lparr>expireTimer := Some (nextHandle w)\<rparr>, snd (setTimeout (max (timestamp e - now2) 100) w))"
  using sl_add_head[of e rest]
  by (simp add: expire_def sl_shift_def Let_def setTimerForNextExpiry_def setTimeout_def)

lemma storeObject_eq:
  "storeObject a now (s, w) =
     rememberForExpiry (oid (heap w a)) now
       (s\<lparr>cache := (cache s)(oid (heap w a) \<mapsto> nxt w)\<rparr>, snd (extend_obj a w))"
  by (simp add: storeObject_def extend_obj_def Let_def)

lemma retrieveObject_hit:
  "cache s i = Some a \<Longrightarrow> retrieveObject i (s, w) = (Some (nxt w), snd (extend_obj a w))"
  by (simp add: retrieveObject_def extend_obj_def)

lemma retrieveObject_miss:
  "cache s i = None \<Longrightarrow> retrieveObject i (s, w) = (None, w)"
  by (simp add: retrieveObject_def)

subsection \<open>Invariants of the reachable states\<close>

lemma rememberForExpiry_cache:
  "cache (fst (rememberForExpiry i now (s, w))) = cache s"
  "expiryDuration (fst (rememberForExpiry i now (s, w))) = expiryDuration s"
  "heap (snd (rememberForExpiry i now (s, w))) = heap w"
  "nxt (snd (rememberForExpiry i now (s, w))) = nxt w"
  "queries (snd (rememberForExpiry i now (s, w))) = queries w"
  by (cases "expiryDuration s"; cases "expireTimer s";
      simp add: rememberForExpiry_disabled rememberForExpiry_enabled setTimeout_def Let_def)+

lemma rememberForExpiry_index_inv:
  "index_inv s \<Longrightarrow> index_inv (fst (rememberForExpiry i now (s, w)))"
  using distinct_forget[of "expireTimestamps s" i] sorted_forget[of "expireTimestamps s" i]
  by (cases "expiryDuration s"; cases "expireTimer s")
     (auto simp: rememberForExpiry_disabled rememberForExpiry_enabled Let_def index_inv_def
        sorted_sl_add distinct_sl_add)

lemma rememberForExpiry_timer_inv:
  "timer_inv (s, w) \<Longrightarrow> timer_inv (rememberForExpiry i now (s, w))"
  by (cases "expiryDuration s"; cases "expireTimer s")
     (auto simp: rememberForExpiry_disabled rememberForExpiry_enabled Let_def timer_inv_def
        setTimeout_def)

lemma rememberForExpiry_armed_inv:
  "armed_inv s \<Longrightarrow> armed_inv (fst (rememberForExpiry i now (s, w)))"
  by (cases "expiryDuration s"; cases "expireTimer s")
     (auto simp: rememberForExpiry_disabled rememberForExpiry_enabled Let_def armed_inv_def
        sl_add_not_Nil)

lemma rememberForExpiry_pending_inv:
  "pending_inv s \<Longrightarrow> pending_inv (fst (rememberForExpiry i now (s, w)))"
  by (cases "expiryDuration s"; cases "expireTimer s")
     (auto simp: rememberForExpiry_disabled rememberForExpiry_enabled Let_def pending_inv_def)

lemma rememberForExpiry_heap_inv:
  "heap_inv (s, w) \<Longrightarrow> heap_inv (rememberForExpiry i now (s, w))"
  using rememberForExpiry_cache(1,4)[of i now s w]
  by (cases "rememberForExpiry i now (s, w)") (simp add: heap_inv_def)

lemma rememberForExpiry_wf: "wf (s, w) \<Longrightarrow> wf (rememberForExpiry i now (s, w))"
  by (simp add: wf_def rememberForExpiry_index_inv rememberForExpiry_timer_inv
      rememberForExpiry_armed_inv rememberForExpiry_heap_inv)

lemma storeObject_wf: "wf (s, w) \<Longrightarrow> wf (storeObject a now (s, w))"
  unfolding storeObject_eq
  by (rule rememberForExpiry_wf)
     (auto simp: wf_def index_inv_def timer_inv_def armed_inv_def heap_inv_def extend_obj_def
        less_Suc_eq)

lemma storeObject_pending_inv:
  "pending_inv s \<Longrightarrow> pending_inv (fst (storeObject a now (s, w)))"
  unfolding storeObject_eq
  by (rule rememberForExpiry_pending_inv) (simp add: pending_inv_def)

lemma new_object_wf: "wf (s, w) \<Longrightarrow> wf (s, snd (new_object ob w))"
  by (auto simp: wf_def index_inv_def timer_inv_def armed_inv_def heap_inv_def new_object_def
        less_Suc_eq)

lemma retrieveObject_wf: "wf (s, w) \<Longrightarrow> wf (s, snd (retrieveObject i (s, w)))"
  by (cases "cache s i")
     (auto simp: retrieveObject_hit retrieveObject_miss wf_def index_inv_def timer_inv_def
        armed_inv_def heap_inv_def extend_obj_def less_Suc_eq)

lemma getObject_resume_state:
  "snd (getObject_resume ret i now (s, w)) =
     (case ret of
        None \<Rightarrow> (s, snd (retrieveObject i (s, w)))
      | Some ob \<Rightarrow>
          (let sw1 = storeObject (nxt w) now (s, snd (new_object ob w))
           in (fst sw1, snd (retrieveObject i sw1))))"
  by (simp add: getObject_resume_def new_object_def Let_def split_def split: option.splits)

lemma getObject_resume_wf: "wf (s, w) \<Longrightarrow> wf (snd (getObject_resume ret i now (s, w)))"
proof (cases ret)
  case None
  assume "wf (s, w)"
  with None show ?thesis by (simp add: getObject_resume_state retrieveObject_wf)
next
  case (Some ob)
  assume "wf (s, w)"
  then have "wf (storeObject (nxt w) now (s, snd (new_object ob w)))"
    by (intro storeObject_wf new_object_wf)
  then have "wf (fst (storeObject (nxt w) now (s, snd (new_object ob w))),
                 snd (retrieveObject i (storeObject (nxt w) now (s, snd (new_object ob w)))))"
    using retrieveObject_wf[of "fst (storeObject (nxt w) now (s, snd (new_object ob w)))"
                               "snd (storeObject (nxt w) now (s, snd (new_object ob w)))" i]
    by simp
  with Some show ?thesis by (simp add: getObject_resume_state Let_def)
qed

lemma getObject_resume_pending_inv:
  "pending_inv s \<Longrightarrow> pending_inv (fst (snd (getObject_resume ret i now (s, w))))"
  by (cases ret) (simp_all add: getObject_resume_state Let_def storeObject_pending_inv)

lemma log_query_wf: "wf (s, w) \<Longrightarrow> wf (s, w\<lparr>queries := queries w @ [i]\<rparr>)"
  by (simp add: wf_def index_inv_def timer_inv_def armed_inv_def heap_inv_def)

lemma getObject_state:
  "snd (getObject db i now (s, w)) =
     (if cache s i = None then
        (case db i of
           Rejected e \<Rightarrow> (s, w\<lparr>queries := queries w @ [i]\<rparr>)
         | Resolved ret \<Rightarrow> snd (getObject_resume ret i now (s, w\<lparr>queries := queries w @ [i]\<rparr>)))
      else (s, snd (retrieveObject i (s, w))))"
  by (simp add: getObject_def Let_def split_def split: fetched.splits)

lemma getObject_wf: "wf (s, w) \<Longrightarrow> wf (snd (getObject db i now (s, w)))"
  by (simp add: getObject_state log_query_wf getObject_resume_wf retrieveObject_wf
      split: fetched.splits)

lemma getObject_pending_inv:
  "pending_inv s \<Longrightarrow> pending_inv (fst (snd (getObject db i now (s, w))))"
  by (simp add: getObject_state getObject_resume_pending_inv split: fetched.splits)

lemma invalidateObject_wf: "wf (s, w) \<Longrightarrow> wf (invalidateObject i s, w)"
  by (simp add: wf_def index_inv_def timer_inv_def armed_inv_def heap_inv_def invalidateObject_def)

lemma dispose_wf: "wf (s, w) \<Longrightarrow> wf (dispose (s, w))"
  by (cases "expireTimer s")
     (auto simp: wf_def index_inv_def timer_inv_def armed_inv_def heap_inv_def dispose_def
        clearTimeout_def Let_def)

lemma expire_after_fire:
  assumes "index_inv s" and "timeouts w = []" and "heap_inv (s, w)"
  shows "wf (expire now1 now2 (s, w)) \<and> pending_inv (fst (expire now1 now2 (s, w)))"
proof (cases "expireTimestamps s")
  case Nil
  with assms show ?thesis
    by (simp add: expire_empty wf_def index_inv_def timer_inv_def armed_inv_def heap_inv_def
        pending_inv_def)
next
  case (Cons e rest)
  show ?thesis
  proof (cases "timestamp e \<le> now1")
    case True
    show ?thesis
    proof (cases rest)
      case Nil
      with Cons True assms show ?thesis
        by (simp add: expire_due setTimerForNextExpiry_empty wf_def index_inv_def timer_inv_def
            armed_inv_def heap_inv_def pending_inv_def)
    next
      case (Cons e' rest')
      with \<open>expireTimestamps s = e # rest\<close> True assms show ?thesis
        by (simp add: expire_due setTimerForNextExpiry_sorted[of _ e' rest'] wf_def index_inv_def
            timer_inv_def armed_inv_def heap_inv_def pending_inv_def setTimeout_def)
    qed
  next
    case False
    with Cons assms show ?thesis
      by (simp add: expire_not_due[of s e rest] wf_def index_inv_def timer_inv_def
          armed_inv_def heap_inv_def pending_inv_def setTimeout_def)
  qed
qed

lemma fired_timeouts:
  assumes "timer_inv (s, w)" and "h \<in> fst ` set (timeouts w)"
  shows "timeouts (clearTimeout h w) = []"
proof (cases "expireTimer s")
  case None
  with assms show ?thesis by (simp add: timer_inv_def)
next
  case (Some h')
  with assms(1) have m: "map fst (timeouts w) = [h']" by (simp add: timer_inv_def)
  then obtain p where p: "timeouts w = [p]" and "fst p = h'" by auto
  with assms(2) have "fst p = h" by simp
  with p show ?thesis by (simp add: clearTimeout_def)
qed

lemma clearTimeout_heap_inv: "heap_inv (s, w) \<Longrightarrow> heap_inv (s, clearTimeout h w)"
  by (simp add: heap_inv_def clearTimeout_def)

lemma apply_op_wf:
  assumes "wf sw" and "apply_op x sw = Some sw'"
  shows "wf sw'"
proof (cases sw)
  case (Pair s w)
  show ?thesis
  proof (cases x)
    case (GetObject db i now)
    with assms Pair show ?thesis using getObject_wf[of s w db i now] by auto
  next
    case (Resume ret i now)
    with assms Pair show ?thesis using getObject_resume_wf[of s w ret i now] by auto
  next
    case (UpdateObject ob now)
    with assms Pair show ?thesis
      using storeObject_wf[OF new_object_wf[of s w ob], of "nxt w" now]
      by (auto simp: updateObject_def new_object_def)
  next
    case (InvalidateObject i)
    with assms Pair show ?thesis using invalidateObject_wf[of s w i] by auto
  next
    case Dispose
    with assms Pair show ?thesis using dispose_wf[of s w] by auto
  next
    case (TimerFire h now1 now2)
    with assms Pair have h: "h \<in> fst ` set (timeouts w)"
      and sw': "sw' = expire now1 now2 (s, clearTimeout h w)"
      by (auto split: if_splits)
    from assms(1) Pair have "index_inv s" "timer_inv (s, w)" "heap_inv (s, w)"
      by (simp_all add: wf_def)
    then show ?thesis
      unfolding sw'
      using expire_after_fire[of s "clearTimeout h w" now1 now2] fired_timeouts[OF _ h]
        clearTimeout_heap_inv
      by blast
  qed
qed

lemma apply_op_pending_inv:
  assumes "wf sw" and "pending_inv (fst sw)" and "x \<noteq> Dispose" and "apply_op x sw = Some sw'"
  shows "pending_inv (fst sw')"
proof (cases sw)
  case (Pair s w)
  show ?thesis
  proof (cases x)
    case (GetObject db i now)
    with assms Pair show ?thesis using getObject_pending_inv[of s db i now w] by auto
  next
    case (Resume ret i now)
    with assms Pair show ?thesis using getObject_resume_pending_inv[of s ret i now w] by auto
  next
    case (UpdateObject ob now)
    with assms Pair show ?thesis
      using storeObject_pending_inv[of s "nxt w" now "snd (new_object ob w)"]
      by (auto simp: updateObject_def new_object_def)
  next
    case (InvalidateObject i)
    with assms Pair show ?thesis by (auto simp: pending_inv_def invalidateObject_def)
  next
    case Dispose
    with assms show ?thesis by simp
  next
    case (TimerFire h now1 now2)
    with assms Pair have h: "h \<in> fst ` set (timeouts w)"
      and sw': "sw' = expire now1 now2 (s, clearTimeout h w)"
      by (auto split: if_splits)
    from assms(1) Pair have "index_inv s" "timer_inv (s, w)" "heap_inv (s, w)"
      by (simp_all add: wf_def)
    then show ?thesis
      unfolding sw'
      using expire_after_fire[of s "clearTimeout h w" now1 now2] fired_timeouts[OF _ h]
        clearTimeout_heap_inv
      by blast
  qed
qed

lemma run_wf: "wf sw \<Longrightarrow> run xs sw = Some sw' \<Longrightarrow> wf sw'"
proof (induction xs arbitrary: sw)
  case Nil
  then show ?case by simp
next
  case (Cons x xs)
  then show ?case by (auto split: option.splits dest: apply_op_wf)
qed

lemma run_pending_inv:
  "wf sw \<Longrightarrow> pending_inv (fst sw) \<Longrightarrow> Dispose \<notin> set xs \<Longrightarrow> run xs sw = Some sw' \<Longrightarrow>
   pending_inv (fst sw')"
proof (induction xs arbitrary: sw)
  case Nil
  then show ?case by simp
next
  case (Cons x xs)
  from Cons.prems obtain sw1 where s1: "apply_op x sw = Some sw1" and r: "run xs sw1 = Some sw'"
    by (auto split: option.splits)
  from Cons.prems have "x \<noteq> Dispose" by auto
  with Cons.prems s1 have "wf sw1" "pending_inv (fst sw1)"
    by (auto dest: apply_op_wf apply_op_pending_inv)
  with Cons.IH[of sw1] r Cons.prems show ?case by simp
qed

lemma wf_construct: "timeouts w = [] \<Longrightarrow> wf (construct d, w)"
  by (simp add: wf_def index_inv_def timer_inv_def armed_inv_def heap_inv_def construct_def)

lemma pending_inv_construct: "pending_inv (construct d)"
  by (simp add: pending_inv_def construct_def)

text \<open>
  Every state that a new cache reaches, in a world with no timeout of the cache pending at
  its construction, satisfies the four invariants.
\<close>

lemma reachable_wf:
  assumes "timeouts w0 = []" and "run ops (construct d, w0) = Some (s, w)"
  shows "sorted (map timestamp (expireTimestamps s))"
    and "distinct (map id' (expireTimestamps s))"
    and "timer_inv (s, w)"
    and "armed_inv s"
    and "heap_inv (s, w)"
  using run_wf[OF wf_construct[OF assms(1)] assms(2)]
  by (simp_all add: wf_def index_inv_def)

subsection \<open>getObject\<close>

lemma storeObject_effects:
  "cache (fst (storeObject a now (s, w))) = (cache s)(oid (heap w a) \<mapsto> nxt w)"
  "expiryDuration (fst (storeObject a now (s, w))) = expiryDuration s"
  "heap (snd (storeObject a now (s, w))) = (heap w)(nxt w := heap w a)"
  "nxt (snd (storeObject a now (s, w))) = Suc (nxt w)"
  "queries (snd (storeObject a now (s, w))) = queries w"
  by (simp_all add: storeObject_eq rememberForExpiry_cache extend_obj_def)



lemma getObject_hit:
  "cache s i = Some a \<Longrightarrow>
   getObject db i now (s, w) = (Inr (Some (nxt w)), s, snd (extend_obj a w))"
  by (simp add: getObject_def retrieveObject_hit)

lemma getObject_absent:
  "cache s i = None \<Longrightarrow> db i = Resolved None \<Longrightarrow>
   getObject db i now (s, w) = (Inr None, s, w\<lparr>queries := queries w @ [i]\<rparr>)"
  by (simp add: getObject_def getObject_resume_def retrieveObject_miss)

lemma getObject_rejected:
  "cache s i = None \<Longrightarrow> db i = Rejected e \<Longrightarrow>
   getObject db i now (s, w) = (Inl e, s, w\<lparr>queries := queries w @ [i]\<rparr>)"
  by (simp add: getObject_def)

lemma getObject_value:
  "cache s i = None \<Longrightarrow> db i = Resolved (Some ob) \<Longrightarrow>
   getObject db i now (s, w) =
     (let sw1 = storeObject (nxt w) now (s, snd (new_object ob (w\<lparr>queries := queries w @ [i]\<rparr>)));
          rw = retrieveObject i sw1
      in (Inr (fst rw), fst sw1, snd rw))"
  by (simp add: getObject_def getObject_resume_def new_object_def Let_def split_def)

subsection \<open>invalidateObject\<close>

text \<open>
  Claim C7. \<open>invalidateObject\<close> removes the identifier from the entry store and changes
  nothing else: every other entry, the expiry index, the timer handle and the configuration
  are as before, the world is not touched, an identifier that is not cached leaves the
  cache as it is, and the call always returns.
\<close>

theorem invalidateObject_frame:
  "cache (invalidateObject i s) i = None
   \<and> (\<forall>k. k \<noteq> i \<longrightarrow> cache (invalidateObject i s) k = cache s k)
   \<and> expireTimestamps (invalidateObject i s) = expireTimestamps s
   \<and> expireTimer (invalidateObject i s) = expireTimer s
   \<and> expiryDuration (invalidateObject i s) = expiryDuration s
   \<and> (cache s i = None \<longrightarrow> invalidateObject i s = s)
   \<and> apply_op (InvalidateObject i) (s, w) = Some (invalidateObject i s, w)"
proof -
  have "cache s i = None \<Longrightarrow> (cache s)(i := None) = cache s"
    by (rule ext) simp
  then show ?thesis by (simp add: invalidateObject_def)
qed

theorem invalidateObject_frame_witness:
  "cache (invalidateObject ''a'' cache_ab) ''a'' = None
   \<and> ''b'' \<noteq> ''a'' \<and> cache (invalidateObject ''a'' cache_ab) ''b'' = Some 3
   \<and> expireTimestamps (invalidateObject ''a'' cache_ab) = expireTimestamps cache_ab
   \<and> expireTimer (invalidateObject ''a'' cache_ab) = Some 0
   \<and> cache cache_ab ''c'' = None \<and> invalidateObject ''c'' cache_ab = cache_ab"
  using invalidateObject_frame[of "''a''" cache_ab world_ab]
        invalidateObject_frame[of "''c''" cache_ab world_ab]
  by (simp add: cache_ab_def)

subsection \<open>Reads do not refresh the expiry\<close>

text \<open>
  Claim C10. A \<open>getObject\<close> for a cached identifier leaves every field of the cache as it
  is, the expiry index and the timer handle among them, sets and clears no timeout,
  queries nothing and changes no object that existed before: only the returned copy is
  new. The expiry record of the entry is the one of its last store.
\<close>

theorem getObject_hit_keeps_expiry:
  "cache s i = Some a \<Longrightarrow>
     fst (snd (getObject db i now (s, w))) = s
   \<and> expireTimestamps (fst (snd (getObject db i now (s, w)))) = expireTimestamps s
   \<and> expireTimer (fst (snd (getObject db i now (s, w)))) = expireTimer s
   \<and> timeouts (snd (snd (getObject db i now (s, w)))) = timeouts w
   \<and> nextHandle (snd (snd (getObject db i now (s, w)))) = nextHandle w
   \<and> queries (snd (snd (getObject db i now (s, w)))) = queries w
   \<and> (\<forall>x. x \<noteq> nxt w \<longrightarrow> heap (snd (snd (getObject db i now (s, w)))) x = heap w x)
   \<and> fst (getObject db i now (s, w)) = Inr (Some (nxt w))"
  by (simp add: getObject_hit extend_obj_def)

theorem getObject_hit_keeps_expiry_witness:
  "cache cache_ab ''a'' = Some 1
   \<and> fst (snd (getObject db_b ''a'' 999 (cache_ab, world_ab))) = cache_ab
   \<and> expireTimestamps (fst (snd (getObject db_b ''a'' 999 (cache_ab, world_ab))))
       = [\<lparr>timestamp = 1000, id' = ''a''\<rparr>, \<lparr>timestamp = 1010, id' = ''b''\<rparr>]
   \<and> timeouts (snd (snd (getObject db_b ''a'' 999 (cache_ab, world_ab)))) = [(0, 1000)]
   \<and> queries (snd (snd (getObject db_b ''a'' 999 (cache_ab, world_ab)))) = []
   \<and> 1 \<noteq> nxt world_ab \<and> heap (snd (snd (getObject db_b ''a'' 999 (cache_ab, world_ab)))) 1 = obj_a"
  using getObject_hit_keeps_expiry[of cache_ab "''a''" 1 db_b 999 world_ab]
  by (simp add: cache_ab_def world_ab_def)

subsection \<open>One run of expire\<close>

lemma sorted_head_least:
  "sorted (map timestamp (e # rest)) \<Longrightarrow> \<forall>x\<in>set (e # rest). timestamp e \<le> timestamp x"
  by auto

lemma expire_result:
  assumes "expireTimestamps s = e # rest" and "sorted (map timestamp (e # rest))"
  shows "expire now1 now2 (s, w) =
     (let s1 = (if timestamp e \<le> now1
                then s\<lparr>expireTimestamps := rest, cache := (cache s)(id' e := None)\<rparr>
                else s)
      in case expireTimestamps s1 of
           [] \<Rightarrow> (s1\<lparr>expireTimer := None\<rparr>, w)
         | e' # rest' \<Rightarrow>
             (s1\<lparr>expireTimer := Some (nextHandle w)\<rparr>,
              snd (setTimeout (max (timestamp e' - now2) 100) w)))"
proof (cases "timestamp e \<le> now1")
  case True
  show ?thesis
  proof (cases rest)
    case Nil
    with True assms show ?thesis
      by (simp add: expire_due setTimerForNextExpiry_empty)
  next
    case (Cons e' rest')
    with True assms show ?thesis
      by (simp add: expire_due setTimerForNextExpiry_sorted[of _ e' rest'])
  qed
next
  case False
  with assms show ?thesis by (simp add: expire_not_due[of s e rest])
qed

text \<open>
  Claim C2. One run of \<open>expire\<close> on a cache whose index is in ascending order. On an empty
  index the timer handle is cleared and nothing else happens. Otherwise the first record,
  which has the smallest timestamp, is taken off; when its timestamp is at or before the
  clock, its identifier is deleted from the entry store and the record stays out; when it
  is later, the record is put back and index and entry store are as before. Afterwards, if
  the index is empty no timer is set, and if it is not, one timeout is set whose delay is
  the larger of 100 and the time from the second reading of the clock to the smallest
  timestamp left.
\<close>

theorem expire_step:
  assumes "sorted (map timestamp (expireTimestamps s))"
  shows
  "(expireTimestamps s = [] \<longrightarrow> expire now1 now2 (s, w) = (s\<lparr>expireTimer := None\<rparr>, w))
   \<and> (\<forall>e rest. expireTimestamps s = e # rest \<longrightarrow>
        (\<forall>x\<in>set (expireTimestamps s). timestamp e \<le> timestamp x)
      \<and> (timestamp e \<le> now1 \<longrightarrow>
           cache (fst (expire now1 now2 (s, w))) = (cache s)(id' e := None)
         \<and> expireTimestamps (fst (expire now1 now2 (s, w))) = rest)
      \<and> (now1 < timestamp e \<longrightarrow>
           cache (fst (expire now1 now2 (s, w))) = cache s
         \<and> expireTimestamps (fst (expire now1 now2 (s, w))) = e # rest)
      \<and> expiryDuration (fst (expire now1 now2 (s, w))) = expiryDuration s
      \<and> (expireTimestamps (fst (expire now1 now2 (s, w))) = [] \<longrightarrow>
           expireTimer (fst (expire now1 now2 (s, w))) = None
         \<and> snd (expire now1 now2 (s, w)) = w)
      \<and> (\<forall>e' rest'. expireTimestamps (fst (expire now1 now2 (s, w))) = e' # rest' \<longrightarrow>
           (\<forall>x\<in>set (e' # rest'). timestamp e' \<le> timestamp x)
         \<and> expireTimer (fst (expire now1 now2 (s, w))) = Some (nextHandle w)
         \<and> snd (expire now1 now2 (s, w)) = snd (setTimeout (max (timestamp e' - now2) 100) w)))"
proof (intro conjI impI allI)
  assume "expireTimestamps s = []"
  then show "expire now1 now2 (s, w) = (s\<lparr>expireTimer := None\<rparr>, w)"
    by (rule expire_empty)
next
  fix e rest
  assume idx: "expireTimestamps s = e # rest"
  with assms have srt: "sorted (map timestamp (e # rest))" by simp
  note res = expire_result[OF idx srt, of now1 now2 w]
  from srt idx show "\<forall>x\<in>set (expireTimestamps s). timestamp e \<le> timestamp x"
    using sorted_head_least[of e rest] by simp
  show "expiryDuration (fst (expire now1 now2 (s, w))) = expiryDuration s"
    unfolding res by (simp add: Let_def split: list.splits)
  {
    assume due: "timestamp e \<le> now1"
    from due show "cache (fst (expire now1 now2 (s, w))) = (cache s)(id' e := None)"
      unfolding res by (simp add: Let_def split: list.splits)
    from due show "expireTimestamps (fst (expire now1 now2 (s, w))) = rest"
      unfolding res by (simp add: Let_def split: list.splits)
  }
  {
    assume late: "now1 < timestamp e"
    from late show "cache (fst (expire now1 now2 (s, w))) = cache s"
      unfolding res by (simp add: Let_def idx)
    from late idx show "expireTimestamps (fst (expire now1 now2 (s, w))) = e # rest"
      unfolding res by (simp add: Let_def)
  }
  {
    assume emp: "expireTimestamps (fst (expire now1 now2 (s, w))) = []"
    then show "expireTimer (fst (expire now1 now2 (s, w))) = None"
      unfolding res by (simp add: Let_def idx split: list.splits if_splits)
    from emp show "snd (expire now1 now2 (s, w)) = w"
      unfolding res by (simp add: Let_def idx split: list.splits if_splits)
  }
  {
    fix e' rest'
    assume ne: "expireTimestamps (fst (expire now1 now2 (s, w))) = e' # rest'"
    have "sorted (map timestamp (expireTimestamps (fst (expire now1 now2 (s, w)))))"
      using srt unfolding res by (auto simp: Let_def idx split: list.splits)
    with ne show "\<forall>x\<in>set (e' # rest'). timestamp e' \<le> timestamp x"
      using sorted_head_least[of e' rest'] by simp
    from ne show "expireTimer (fst (expire now1 now2 (s, w))) = Some (nextHandle w)"
      unfolding res by (simp add: Let_def idx split: list.splits if_splits)
    from ne show "snd (expire now1 now2 (s, w)) = snd (setTimeout (max (timestamp e' - now2) 100) w)"
      unfolding res by (simp add: Let_def idx split: list.splits if_splits)
  }
qed

theorem expire_step_witness:
  "sorted (map timestamp (expireTimestamps cache_ab))
   \<and> expireTimestamps cache_ab = \<lparr>timestamp = 1000, id' = ''a''\<rparr> # [\<lparr>timestamp = 1010, id' = ''b''\<rparr>]
   \<and> timestamp \<lparr>timestamp = 1000, id' = ''a''\<rparr> \<le> 1005
   \<and> cache (fst (expire 1005 1006 (cache_ab, clearTimeout 0 world_ab))) = [''b'' \<mapsto> 3]
   \<and> expireTimestamps (fst (expire 1005 1006 (cache_ab, clearTimeout 0 world_ab)))
       = [\<lparr>timestamp = 1010, id' = ''b''\<rparr>]
   \<and> expireTimer (fst (expire 1005 1006 (cache_ab, clearTimeout 0 world_ab))) = Some 1
   \<and> timeouts (snd (expire 1005 1006 (cache_ab, clearTimeout 0 world_ab))) = [(1, 100)]
   \<and> 5 < timestamp \<lparr>timestamp = 1000, id' = ''a''\<rparr>
   \<and> expireTimestamps (fst (expire 5 6 (cache_ab, clearTimeout 0 world_ab)))
       = expireTimestamps cache_ab
   \<and> cache (fst (expire 5 6 (cache_ab, clearTimeout 0 world_ab))) = cache cache_ab
   \<and> timeouts (snd (expire 5 6 (cache_ab, clearTimeout 0 world_ab))) = [(1, 994)]
   \<and> expireTimestamps (construct (Some 1000)) = []
   \<and> expire 5 6 (construct (Some 1000), world0 obj_a)
       = ((construct (Some 1000))\<lparr>expireTimer := None\<rparr>, world0 obj_a)"
proof -
  let ?a = "\<lparr>timestamp = 1000, id' = ''a''\<rparr>" and ?b = "\<lparr>timestamp = 1010, id' = ''b''\<rparr>"
  let ?w = "clearTimeout 0 world_ab"
  have srt: "sorted (map timestamp (expireTimestamps cache_ab))"
    by (simp add: cache_ab_def)
  have idx: "expireTimestamps cache_ab = ?a # [?b]"
    by (simp add: cache_ab_def)
  have w: "nextHandle ?w = 1" "timeouts ?w = []"
    by (simp_all add: clearTimeout_def world_ab_def)
  have c: "(cache cache_ab)(''a'' := None) = [''b'' \<mapsto> 3]"
    by (rule ext) (simp add: cache_ab_def)
  note due = expire_step[OF srt, of 1005 1006 ?w, THEN conjunct2, rule_format, OF idx]
  have d1: "cache (fst (expire 1005 1006 (cache_ab, ?w))) = [''b'' \<mapsto> 3]"
    and d2: "expireTimestamps (fst (expire 1005 1006 (cache_ab, ?w))) = [?b]"
    using due c by simp_all
  from due d2 have d3: "expireTimer (fst (expire 1005 1006 (cache_ab, ?w))) = Some 1"
    and d4: "timeouts (snd (expire 1005 1006 (cache_ab, ?w))) = [(1, 100)]"
    by (simp_all add: w setTimeout_def)
  note late = expire_step[OF srt, of 5 6 ?w, THEN conjunct2, rule_format, OF idx]
  have l1: "cache (fst (expire 5 6 (cache_ab, ?w))) = cache cache_ab"
    and l2: "expireTimestamps (fst (expire 5 6 (cache_ab, ?w))) = expireTimestamps cache_ab"
    using late idx by simp_all
  from late l2 idx have l3: "timeouts (snd (expire 5 6 (cache_ab, ?w))) = [(1, 994)]"
    by (simp add: w setTimeout_def)
  have e0: "expireTimestamps (construct (Some 1000)) = []"
    by (simp add: construct_def)
  have e1: "expire 5 6 (construct (Some 1000), world0 obj_a)
              = ((construct (Some 1000))\<lparr>expireTimer := None\<rparr>, world0 obj_a)"
    using expire_step[of "construct (Some 1000)" 5 6 "world0 obj_a"] e0 by simp
  from srt idx d1 d2 d3 d4 l1 l2 l3 e0 e1 show ?thesis by simp
qed

subsection \<open>Runs: how many records a fire handles, and when a timer is set\<close>

lemma run_append:
  "run (xs @ ys) sw = (case run xs sw of None \<Rightarrow> None | Some sw' \<Rightarrow> run ys sw')"
  by (induction xs arbitrary: sw) (auto split: option.splits)

lemma run_trace_ab:
  "run trace_ab (construct (Some 1000), world0 obj_a) = Some (cache_ab, world_ab)"
proof -
  have h: "(\<lambda>_. obj_a)(0 := obj_a, Suc 0 := obj_a, Suc (Suc 0) := obj_b, Suc (Suc (Suc 0)) := obj_b)
            = (\<lambda>_. obj_a)(2 := obj_b, 3 := obj_b)"
    by (rule ext) (simp add: numeral_2_eq_2 numeral_3_eq_3)
  have c: "[''a'' \<mapsto> Suc 0, ''b'' \<mapsto> Suc (Suc (Suc 0))] = [''a'' \<mapsto> Suc 0, ''b'' \<mapsto> 3]"
    by (simp add: numeral_3_eq_3)
  have o: "oid obj_a = ''a''" "oid obj_b = ''b''"
    by (simp_all add: obj_a_def obj_b_def)
  show ?thesis
    by (simp add: trace_ab_def construct_def world0_def new_object_def updateObject_def
        storeObject_def extend_obj_def rememberForExpiry_def setTimeout_def sl_remove_def
        cache_ab_def world_ab_def Let_def h c o)
qed

lemma fire_trace_ab:
  "run (trace_ab @ [TimerFire 0 1020 1021]) (construct (Some 1000), world0 obj_a)
     = Some (expire 1020 1021 (cache_ab, clearTimeout 0 world_ab))"
  by (simp add: run_append run_trace_ab) (simp add: world_ab_def)

lemma dispose_trace_ab:
  "run (trace_ab @ [Dispose]) (construct (Some 1000), world0 obj_a)
     = Some (dispose (cache_ab, world_ab))"
  by (simp add: run_append run_trace_ab)

text \<open>
  Claim C6 as stated fails: with the two sample objects stored at times 0 and 10 and the
  timer firing at time 1020, both records (timestamps 1000 and 1010) are due, but after the
  fire the record of \<open>b\<close> is still in the index and \<open>b\<close> is still cached.
\<close>

theorem expire_all_due_counterexample:
  "run (trace_ab @ [TimerFire 0 1020 1021]) (construct (Some 1000), world0 obj_a) \<noteq> None
   \<and> expireTimestamps (fst (the (run (trace_ab @ [TimerFire 0 1020 1021])
                                   (construct (Some 1000), world0 obj_a))))
       = [\<lparr>timestamp = 1010, id' = ''b''\<rparr>]
   \<and> timestamp \<lparr>timestamp = 1010, id' = ''b''\<rparr> \<le> 1020
   \<and> cache (fst (the (run (trace_ab @ [TimerFire 0 1020 1021])
                        (construct (Some 1000), world0 obj_a)))) ''b'' = Some 3"
  by (simp add: fire_trace_ab)
     (simp add: expire_def sl_shift_def invalidateObject_def setTimerForNextExpiry_def
        setTimeout_def clearTimeout_def cache_ab_def world_ab_def Let_def)

text \<open>
  Claim C6, as amended. One fire handles one record. On an index in ascending order with
  first record \<open>e\<close>, \<open>expire\<close> takes \<open>e\<close> out exactly when \<open>e\<close> is due and then deletes the
  identifier of \<open>e\<close> from the entry store; every other record stays in the index, due or
  not, and every entry under another identifier stays cached. When records are left, a
  timeout is set for the first of them, with a delay of at least 100.
\<close>

theorem expire_one_record_per_fire:
  assumes "expireTimestamps s = e # rest" and "sorted (map timestamp (e # rest))"
  shows
  "expireTimestamps (fst (expire now1 now2 (s, w))) = (if timestamp e \<le> now1 then rest else e # rest)
   \<and> (\<forall>k. k \<noteq> id' e \<longrightarrow> cache (fst (expire now1 now2 (s, w))) k = cache s k)
   \<and> (timestamp e \<le> now1 \<longrightarrow> cache (fst (expire now1 now2 (s, w))) (id' e) = None)
   \<and> (\<forall>e' rest'. expireTimestamps (fst (expire now1 now2 (s, w))) = e' # rest' \<longrightarrow>
         expireTimer (fst (expire now1 now2 (s, w))) = Some (nextHandle w)
       \<and> timeouts (snd (expire now1 now2 (s, w)))
           = timeouts w @ [(nextHandle w, max (timestamp e' - now2) 100)])"
  unfolding expire_result[OF assms]
  using assms(1) by (auto simp: Let_def setTimeout_def split: list.splits)

theorem expire_one_record_per_fire_witness:
  "expireTimestamps cache_ab = \<lparr>timestamp = 1000, id' = ''a''\<rparr> # [\<lparr>timestamp = 1010, id' = ''b''\<rparr>]
   \<and> sorted (map timestamp (\<lparr>timestamp = 1000, id' = ''a''\<rparr> # [\<lparr>timestamp = 1010, id' = ''b''\<rparr>]))
   \<and> expireTimestamps (fst (expire 1020 1021 (cache_ab, clearTimeout 0 world_ab)))
       = [\<lparr>timestamp = 1010, id' = ''b''\<rparr>]
   \<and> ''b'' \<noteq> ''a''
   \<and> cache (fst (expire 1020 1021 (cache_ab, clearTimeout 0 world_ab))) ''b'' = Some 3
   \<and> cache (fst (expire 1020 1021 (cache_ab, clearTimeout 0 world_ab))) ''a'' = None
   \<and> timeouts (snd (expire 1020 1021 (cache_ab, clearTimeout 0 world_ab))) = [(1, 100)]"
proof -
  let ?a = "\<lparr>timestamp = 1000, id' = ''a''\<rparr>" and ?b = "\<lparr>timestamp = 1010, id' = ''b''\<rparr>"
  let ?w = "clearTimeout 0 world_ab"
  have idx: "expireTimestamps cache_ab = ?a # [?b]"
    by (simp add: cache_ab_def)
  have srt: "sorted (map timestamp (?a # [?b]))"
    by simp
  have w: "nextHandle ?w = 1" "timeouts ?w = []"
    by (simp_all add: clearTimeout_def world_ab_def)
  have cb: "cache cache_ab ''b'' = Some 3"
    by (simp add: cache_ab_def)
  note t = expire_one_record_per_fire[OF idx srt, of 1020 1021 ?w]
  from t have i: "expireTimestamps (fst (expire 1020 1021 (cache_ab, ?w))) = [?b]"
    by simp
  from t cb have c: "cache (fst (expire 1020 1021 (cache_ab, ?w))) ''b'' = Some 3"
    "cache (fst (expire 1020 1021 (cache_ab, ?w))) ''a'' = None"
    by simp_all
  from t i have "timeouts (snd (expire 1020 1021 (cache_ab, ?w))) = [(1, 100)]"
    by (simp add: w)
  with idx srt i c show ?thesis by simp
qed

text \<open>
  Claim C5 as stated fails: after the two sample objects have been stored in a cache with
  an expiry duration and the cache has been disposed of, no timer is set and no timeout is
  pending, but the expiry index still holds both records.
\<close>

theorem timer_iff_index_counterexample:
  "run (trace_ab @ [Dispose]) (construct (Some 1000), world0 obj_a) \<noteq> None
   \<and> expireTimer (fst (the (run (trace_ab @ [Dispose]) (construct (Some 1000), world0 obj_a)))) = None
   \<and> timeouts (snd (the (run (trace_ab @ [Dispose]) (construct (Some 1000), world0 obj_a)))) = []
   \<and> expireTimestamps (fst (the (run (trace_ab @ [Dispose]) (construct (Some 1000), world0 obj_a))))
       = [\<lparr>timestamp = 1000, id' = ''a''\<rparr>, \<lparr>timestamp = 1010, id' = ''b''\<rparr>]"
  by (simp add: dispose_trace_ab)
     (simp add: dispose_def clearTimeout_def cache_ab_def world_ab_def)

text \<open>
  Claim C5, as amended. In every state that a new cache reaches through calls of
  \<open>getObject\<close> (whole, or resumed after other operations), \<open>updateObject\<close> and
  \<open>invalidateObject\<close> and through fires of pending timeouts, with no call of \<open>dispose\<close>,
  the timer handle is set if and only if the expiry index is not empty. With calls of
  \<open>dispose\<close> allowed, a set timer handle still means a non-empty index. In both cases the
  pending timeouts are exactly the one the handle names.
\<close>

theorem timer_armed_iff_index_nonempty:
  assumes "timeouts w0 = []" and "run ops (construct d, w0) = Some (s, w)"
  shows
  "(Dispose \<notin> set ops \<longrightarrow> ((expireTimer s \<noteq> None) = (expireTimestamps s \<noteq> [])))
   \<and> (expireTimer s \<noteq> None \<longrightarrow> expireTimestamps s \<noteq> [])
   \<and> map fst (timeouts w) = (case expireTimer s of None \<Rightarrow> [] | Some h \<Rightarrow> [h])"
proof -
  from assms have wf: "wf (s, w)"
    using run_wf[OF wf_construct] by blast
  have "Dispose \<notin> set ops \<Longrightarrow> pending_inv s"
    using run_pending_inv[OF wf_construct[OF assms(1)] _ _ assms(2)] pending_inv_construct
    by simp
  with wf show ?thesis
    by (auto simp: wf_def armed_inv_def pending_inv_def timer_inv_def)
qed

theorem timer_armed_iff_index_nonempty_witness:
  "timeouts (world0 obj_a) = []
   \<and> run trace_ab (construct (Some 1000), world0 obj_a) = Some (cache_ab, world_ab)
   \<and> Dispose \<notin> set trace_ab
   \<and> expireTimer cache_ab \<noteq> None \<and> expireTimestamps cache_ab \<noteq> []
   \<and> map fst (timeouts world_ab) = [0]"
proof -
  have t0: "timeouts (world0 obj_a) = []"
    by (simp add: world0_def)
  have nd: "Dispose \<notin> set trace_ab"
    by (simp add: trace_ab_def)
  have tm: "expireTimer cache_ab = Some 0"
    by (simp add: cache_ab_def)
  from timer_armed_iff_index_nonempty[OF t0 run_trace_ab] nd tm
  show ?thesis by (simp add: t0 run_trace_ab)
qed

subsection \<open>dispose\<close>

lemma dispose_eq:
  "dispose (s, w) =
     (s\<lparr>expireTimer := None, cache := Map.empty\<rparr>,
      case expireTimer s of None \<Rightarrow> w | Some h \<Rightarrow> clearTimeout h w)"
  by (cases "expireTimer s") (simp_all add: dispose_def)

text \<open>
  Claim C9. \<open>dispose\<close> empties the entry store and clears the timer handle; the timeout the
  handle named is no longer pending; with no timer set the world is not touched; a second
  \<open>dispose\<close> changes nothing; the call always returns. In a state where the pending
  timeouts are the one the handle names, and so in every state a new cache can reach, no
  timeout is pending afterwards.
\<close>

theorem dispose_cancels_and_clears:
  "cache (fst (dispose (s, w))) = Map.empty
   \<and> expireTimer (fst (dispose (s, w))) = None
   \<and> (\<forall>h. expireTimer s = Some h \<longrightarrow> h \<notin> fst ` set (timeouts (snd (dispose (s, w)))))
   \<and> (expireTimer s = None \<longrightarrow> snd (dispose (s, w)) = w)
   \<and> dispose (dispose (s, w)) = dispose (s, w)
   \<and> apply_op Dispose (s, w) = Some (dispose (s, w))
   \<and> (timer_inv (s, w) \<longrightarrow> timeouts (snd (dispose (s, w))) = [])
   \<and> (timeouts w0 = [] \<and> run ops (construct d, w0) = Some (s, w) \<longrightarrow>
         timeouts (snd (dispose (s, w))) = [])"
proof -
  have inv: "timer_inv (s, w) \<Longrightarrow> timeouts (snd (dispose (s, w))) = []"
  proof (cases "expireTimer s")
    case None
    assume "timer_inv (s, w)"
    with None show ?thesis by (simp add: dispose_eq timer_inv_def)
  next
    case (Some h)
    assume t: "timer_inv (s, w)"
    with Some have "h \<in> fst ` set (timeouts w)"
      by (simp add: timer_inv_def flip: set_map)
    from fired_timeouts[OF t this] Some show ?thesis by (simp add: dispose_eq)
  qed
  have reach: "timeouts w0 = [] \<and> run ops (construct d, w0) = Some (s, w) \<Longrightarrow> timer_inv (s, w)"
    using run_wf[OF wf_construct, of w0 ops d "(s, w)"] by (simp add: wf_def)
  have twice: "dispose (dispose (s, w)) = dispose (s, w)"
    by (cases "expireTimer s") (simp_all add: dispose_def)
  have gone: "\<forall>h. expireTimer s = Some h \<longrightarrow> h \<notin> fst ` set (timeouts (snd (dispose (s, w))))"
    by (auto simp: dispose_eq clearTimeout_def)
  from inv reach twice gone show ?thesis
    by (simp add: dispose_eq split: option.splits)
qed

theorem dispose_cancels_and_clears_witness:
  "cache (fst (dispose (cache_ab, world_ab))) = Map.empty
   \<and> expireTimer cache_ab = Some 0
   \<and> 0 \<notin> fst ` set (timeouts (snd (dispose (cache_ab, world_ab))))
   \<and> expireTimer (fst (dispose (cache_ab, world_ab))) = None
   \<and> snd (dispose (dispose (cache_ab, world_ab))) = snd (dispose (cache_ab, world_ab))
   \<and> timer_inv (cache_ab, world_ab)
   \<and> timeouts (world0 obj_a) = []
   \<and> run trace_ab (construct (Some 1000), world0 obj_a) = Some (cache_ab, world_ab)
   \<and> timeouts (snd (dispose (cache_ab, world_ab))) = []"
proof -
  have t0: "timeouts (world0 obj_a) = []"
    by (simp add: world0_def)
  have tm: "expireTimer cache_ab = Some 0"
    by (simp add: cache_ab_def)
  have ti: "timer_inv (cache_ab, world_ab)"
    by (simp add: timer_inv_def cache_ab_def world_ab_def)
  note t = dispose_cancels_and_clears[of cache_ab world_ab "world0 obj_a" trace_ab "Some 1000"]
  from t have a: "cache (fst (dispose (cache_ab, world_ab))) = Map.empty"
    and b: "expireTimer (fst (dispose (cache_ab, world_ab))) = None"
    by simp_all
  from t tm have c: "0 \<notin> fst ` set (timeouts (snd (dispose (cache_ab, world_ab))))"
    by simp
  from t have d: "dispose (dispose (cache_ab, world_ab)) = dispose (cache_ab, world_ab)"
    by simp
  from t have "timeouts (world0 obj_a) = [] \<and>
      run trace_ab (construct (Some 1000), world0 obj_a) = Some (cache_ab, world_ab) \<longrightarrow>
      timeouts (snd (dispose (cache_ab, world_ab))) = []"
    by blast
  with t0 run_trace_ab have e: "timeouts (snd (dispose (cache_ab, world_ab))) = []"
    by simp
  from a b c d e tm ti t0 run_trace_ab show ?thesis by simp
qed

subsection \<open>One record for an identifier\<close>

lemma filter_forget:
  "distinct (map id' xs) \<Longrightarrow> filter (\<lambda>e. id' e = i) (forget i xs) = []"
  using distinct_forget[of xs i] by (auto simp: filter_empty_conv)

lemma rememberForExpiry_distinct:
  "distinct (map id' (expireTimestamps s)) \<Longrightarrow>
   distinct (map id' (expireTimestamps (fst (rememberForExpiry i now (s, w)))))"
  using distinct_forget[of "expireTimestamps s" i]
  by (cases "expiryDuration s"; cases "expireTimer s")
     (auto simp: rememberForExpiry_disabled rememberForExpiry_enabled Let_def distinct_sl_add)

lemma rememberForExpiry_one_record:
  "distinct (map id' (expireTimestamps s)) \<Longrightarrow> expiryDuration s = Some dur \<Longrightarrow>
   filter (\<lambda>e. id' e = i) (expireTimestamps (fst (rememberForExpiry i now (s, w))))
     = [\<lparr>timestamp = now + dur, id' = i\<rparr>]"
  by (cases "expireTimer s")
     (simp_all add: rememberForExpiry_enabled Let_def filter_sl_add_self filter_forget)

lemma storeObject_distinct:
  "distinct (map id' (expireTimestamps s)) \<Longrightarrow>
   distinct (map id' (expireTimestamps (fst (storeObject a now (s, w)))))"
  unfolding storeObject_eq by (rule rememberForExpiry_distinct) simp

lemma storeObject_one_record:
  "distinct (map id' (expireTimestamps s)) \<Longrightarrow> expiryDuration s = Some dur \<Longrightarrow>
   filter (\<lambda>e. id' e = oid (heap w a)) (expireTimestamps (fst (storeObject a now (s, w))))
     = [\<lparr>timestamp = now + dur, id' = oid (heap w a)\<rparr>]"
  unfolding storeObject_eq by (rule rememberForExpiry_one_record) simp_all

lemma getObject_resume_distinct:
  "distinct (map id' (expireTimestamps s)) \<Longrightarrow>
   distinct (map id' (expireTimestamps (fst (snd (getObject_resume ret i now (s, w))))))"
  by (cases ret) (simp_all add: getObject_resume_state Let_def storeObject_distinct)

lemma getObject_distinct:
  "distinct (map id' (expireTimestamps s)) \<Longrightarrow>
   distinct (map id' (expireTimestamps (fst (snd (getObject db i now (s, w))))))"
  by (simp add: getObject_state getObject_resume_distinct split: fetched.splits)

lemma setTimerForNextExpiry_distinct:
  "distinct (map id' (expireTimestamps s)) \<Longrightarrow>
   distinct (map id' (expireTimestamps (fst (setTimerForNextExpiry now (s, w)))))"
  by (cases "expireTimestamps s")
     (auto simp: setTimerForNextExpiry_def sl_shift_def setTimeout_def Let_def distinct_sl_add)

lemma expire_distinct:
  "distinct (map id' (expireTimestamps s)) \<Longrightarrow>
   distinct (map id' (expireTimestamps (fst (expire now1 now2 (s, w)))))"
proof (cases "expireTimestamps s")
  case Nil
  then show ?thesis by (simp add: expire_empty)
next
  case (Cons e rest)
  assume d: "distinct (map id' (expireTimestamps s))"
  show ?thesis
  proof (cases "timestamp e \<le> now1")
    case True
    with Cons d show ?thesis
      by (simp add: expire_due setTimerForNextExpiry_distinct)
  next
    case False
    have "expire now1 now2 (s, w) =
            setTimerForNextExpiry now2 (s\<lparr>expireTimer := None, expireTimestamps := sl_add e rest\<rparr>, w)"
      using Cons False by (simp add: expire_def sl_shift_def Let_def)
    with Cons d show ?thesis
      by (simp add: setTimerForNextExpiry_distinct distinct_sl_add)
  qed
qed

lemma apply_op_distinct:
  assumes "distinct (map id' (expireTimestamps s))" and "apply_op x (s, w) = Some sw'"
  shows "distinct (map id' (expireTimestamps (fst sw')))"
proof (cases x)
  case (GetObject db i now)
  with assms show ?thesis using getObject_distinct[of s db i now w] by auto
next
  case (Resume ret i now)
  with assms show ?thesis using getObject_resume_distinct[of s ret i now w] by auto
next
  case (UpdateObject ob now)
  with assms show ?thesis
    using storeObject_distinct[of s "nxt w" now "snd (new_object ob w)"]
    by (auto simp: updateObject_def new_object_def)
next
  case (InvalidateObject i)
  with assms show ?thesis by (auto simp: invalidateObject_def)
next
  case Dispose
  with assms show ?thesis by (auto simp: dispose_eq)
next
  case (TimerFire h now1 now2)
  with assms show ?thesis
    using expire_distinct[of s now1 now2 "clearTimeout h w"] by (auto split: if_splits)
qed

text \<open>
  Claim C4. The expiry index holds at most one record for an identifier: this holds in a
  new cache and, when it holds before an operation (a method call, a resumed \<open>getObject\<close>,
  a timer fire), it holds after it. After \<open>rememberForExpiry\<close> with expiry enabled, and so
  after \<open>updateObject\<close> or any other store, the index holds exactly one record for the
  identifier, with timestamp now + expiryDuration. The entry store is a map, so it holds
  at most one object for an identifier; a store replaces the entry under the identifier of
  the object by a new copy of the object.
\<close>

theorem one_record_per_identifier:
  assumes "distinct (map id' (expireTimestamps s))"
  shows
  "distinct (map id' (expireTimestamps (construct d)))
   \<and> (apply_op x (s, w) = Some sw' \<longrightarrow> distinct (map id' (expireTimestamps (fst sw'))))
   \<and> (\<forall>dur. expiryDuration s = Some dur \<longrightarrow>
         filter (\<lambda>e. id' e = i) (expireTimestamps (fst (rememberForExpiry i now (s, w))))
           = [\<lparr>timestamp = now + dur, id' = i\<rparr>]
       \<and> filter (\<lambda>e. id' e = oid (heap w a)) (expireTimestamps (fst (updateObject a now (s, w))))
           = [\<lparr>timestamp = now + dur, id' = oid (heap w a)\<rparr>])
   \<and> cache (fst (updateObject a now (s, w))) = (cache s)(oid (heap w a) \<mapsto> nxt w)
   \<and> heap (snd (updateObject a now (s, w))) (nxt w) = heap w a"
  using assms
  by (simp add: construct_def apply_op_distinct updateObject_def rememberForExpiry_one_record
      storeObject_one_record storeObject_effects)

theorem one_record_per_identifier_witness:
  "distinct (map id' (expireTimestamps cache_ab))
   \<and> apply_op (UpdateObject obj_a 500 :: (unit, nat) op) (cache_ab, world_ab)
       = Some (updateObject 4 500 (cache_ab, snd (new_object obj_a world_ab)))
   \<and> distinct (map id' (expireTimestamps
         (fst (updateObject 4 500 (cache_ab, snd (new_object obj_a world_ab))))))
   \<and> expiryDuration cache_ab = Some 1000
   \<and> filter (\<lambda>e. id' e = ''a'') (expireTimestamps (fst (rememberForExpiry ''a'' 500 (cache_ab, world_ab))))
       = [\<lparr>timestamp = 1500, id' = ''a''\<rparr>]
   \<and> oid (heap world_ab 0) = ''a''
   \<and> filter (\<lambda>e. id' e = ''a'') (expireTimestamps (fst (updateObject 0 500 (cache_ab, world_ab))))
       = [\<lparr>timestamp = 1500, id' = ''a''\<rparr>]
   \<and> cache (fst (updateObject 0 500 (cache_ab, world_ab))) = [''a'' \<mapsto> 4, ''b'' \<mapsto> 3]
   \<and> heap (snd (updateObject 0 500 (cache_ab, world_ab))) 4 = obj_a"
proof -
  let ?x = "UpdateObject obj_a 500 :: (unit, nat) op"
  let ?sw = "updateObject 4 500 (cache_ab, snd (new_object obj_a world_ab))"
  have dst: "distinct (map id' (expireTimestamps cache_ab))"
    by (simp add: cache_ab_def)
  have ap: "apply_op ?x (cache_ab, world_ab) = Some ?sw"
    by (simp add: new_object_def world_ab_def)
  have dur: "expiryDuration cache_ab = Some 1000"
    by (simp add: cache_ab_def)
  have w: "oid (heap world_ab 0) = ''a''" "heap world_ab 0 = obj_a" "nxt world_ab = 4"
    by (simp_all add: world_ab_def obj_a_def)
  have c: "(cache cache_ab)(''a'' \<mapsto> 4) = [''a'' \<mapsto> 4, ''b'' \<mapsto> 3]"
    by (rule ext) (simp add: cache_ab_def)
  note t = one_record_per_identifier[OF dst, of "Some 1000" ?x world_ab ?sw "''a''" 500 0]
  from t ap have d': "distinct (map id' (expireTimestamps (fst ?sw)))"
    by simp
  from t dur w have f:
    "filter (\<lambda>e. id' e = ''a'') (expireTimestamps (fst (rememberForExpiry ''a'' 500 (cache_ab, world_ab))))
       = [\<lparr>timestamp = 1500, id' = ''a''\<rparr>]"
    "filter (\<lambda>e. id' e = ''a'') (expireTimestamps (fst (updateObject 0 500 (cache_ab, world_ab))))
       = [\<lparr>timestamp = 1500, id' = ''a''\<rparr>]"
    by simp_all
  from t w c have g: "cache (fst (updateObject 0 500 (cache_ab, world_ab))) = [''a'' \<mapsto> 4, ''b'' \<mapsto> 3]"
    "heap (snd (updateObject 0 500 (cache_ab, world_ab))) 4 = obj_a"
    by simp_all
  from dst ap d' dur f w(1) g show ?thesis by simp
qed

subsection \<open>Copies and aliasing\<close>

lemma grows_refl: "grows sw sw"
  by (simp add: grows_def)

lemma grows_trans:
  assumes a: "grows sw sw'" and b: "grows sw' sw''"
  shows "grows sw sw''"
  unfolding grows_def
proof (intro conjI allI impI)
  from a b show "nxt (snd sw) \<le> nxt (snd sw'')"
    by (simp add: grows_def)
next
  fix k c
  assume "cache (fst sw'') k = Some c"
  with b have "cache (fst sw') k = Some c \<or> (nxt (snd sw') \<le> c \<and> c < nxt (snd sw''))"
    by (simp add: grows_def)
  then show "cache (fst sw) k = Some c \<or> (nxt (snd sw) \<le> c \<and> c < nxt (snd sw''))"
  proof
    assume "cache (fst sw') k = Some c"
    with a have "cache (fst sw) k = Some c \<or> (nxt (snd sw) \<le> c \<and> c < nxt (snd sw'))"
      by (simp add: grows_def)
    moreover from b have "nxt (snd sw') \<le> nxt (snd sw'')"
      by (simp add: grows_def)
    ultimately show ?thesis by auto
  next
    assume "nxt (snd sw') \<le> c \<and> c < nxt (snd sw'')"
    moreover from a have "nxt (snd sw) \<le> nxt (snd sw')"
      by (simp add: grows_def)
    ultimately show ?thesis by auto
  qed
qed

lemma grows_heap_inv:
  assumes "heap_inv sw" and "grows sw sw'"
  shows "heap_inv sw'"
proof -
  have "a < nxt (snd sw')" if "cache (fst sw') k = Some a" for k a
  proof -
    from that assms(2)
    have "cache (fst sw) k = Some a \<or> (nxt (snd sw) \<le> a \<and> a < nxt (snd sw'))"
      by (simp add: grows_def)
    moreover have "cache (fst sw) k = Some a \<Longrightarrow> a < nxt (snd sw)"
      using assms(1) by (cases sw) (simp add: heap_inv_def)
    moreover from assms(2) have "nxt (snd sw) \<le> nxt (snd sw')"
      by (simp add: grows_def)
    ultimately show ?thesis by auto
  qed
  then show ?thesis by (cases sw') (simp add: heap_inv_def)
qed

lemma grows_external:
  assumes "external x sw" and "grows sw sw'"
  shows "external x sw'"
proof -
  from assms have "x < nxt (snd sw')"
    by (simp add: external_def grows_def)
  moreover have "cache (fst sw') k \<noteq> Some x" for k
  proof
    assume "cache (fst sw') k = Some x"
    with assms(2) have "cache (fst sw) k = Some x \<or> nxt (snd sw) \<le> x"
      by (auto simp: grows_def)
    with assms(1) show False by (auto simp: external_def)
  qed
  ultimately show ?thesis by (simp add: external_def)
qed

lemma grows_storeObject: "grows (s, w) (storeObject a now (s, w))"
  by (simp add: grows_def storeObject_effects)

lemma grows_new_object: "grows (s, w) (s, snd (new_object ob w))"
  by (simp add: grows_def new_object_def)

lemma grows_retrieveObject: "grows (s, w) (s, snd (retrieveObject i (s, w)))"
  by (cases "cache s i") (simp_all add: grows_def retrieveObject_hit retrieveObject_miss extend_obj_def)

lemma grows_log_query: "grows (s, w) (s, w\<lparr>queries := q\<rparr>)"
  by (simp add: grows_def)

lemma grows_getObject_resume: "grows (s, w) (snd (getObject_resume ret i now (s, w)))"
proof (cases ret)
  case None
  then show ?thesis by (simp add: getObject_resume_state grows_retrieveObject)
next
  case (Some ob)
  let ?sw1 = "storeObject (nxt w) now (s, snd (new_object ob w))"
  have "grows (s, w) ?sw1"
    using grows_trans[OF grows_new_object grows_storeObject] .
  moreover have "grows ?sw1 (fst ?sw1, snd (retrieveObject i ?sw1))"
    using grows_retrieveObject[of "fst ?sw1" "snd ?sw1" i] by simp
  ultimately show ?thesis
    using Some by (simp add: getObject_resume_state Let_def grows_trans)
qed

lemma grows_getObject: "grows (s, w) (snd (getObject db i now (s, w)))"
proof -
  have "grows (s, w) (snd (getObject_resume ret i now (s, w\<lparr>queries := queries w @ [i]\<rparr>)))" for ret
    using grows_trans[OF grows_log_query grows_getObject_resume] .
  then show ?thesis
    by (simp add: getObject_state grows_log_query grows_retrieveObject split: fetched.splits)
qed

lemma grows_setTimerForNextExpiry: "grows (s, w) (setTimerForNextExpiry now (s, w))"
  by (cases "expireTimestamps s")
     (simp_all add: setTimerForNextExpiry_def sl_shift_def setTimeout_def grows_def Let_def)

lemma grows_expire: "grows (s, w) (expire now1 now2 (s, w))"
proof (cases "expireTimestamps s")
  case Nil
  then show ?thesis by (simp add: expire_empty grows_def)
next
  case (Cons e rest)
  have "grows (s, w) (s', w) \<Longrightarrow> grows (s, w) (setTimerForNextExpiry now2 (s', w))" for s'
    using grows_trans[OF _ grows_setTimerForNextExpiry] .
  then show ?thesis
    using Cons by (simp add: expire_def sl_shift_def invalidateObject_def Let_def grows_def)
qed

lemma grows_dispose: "grows (s, w) (dispose (s, w))"
  by (cases "expireTimer s") (simp_all add: dispose_eq grows_def clearTimeout_def)

lemma grows_apply_op:
  assumes "apply_op x (s, w) = Some sw'"
  shows "grows (s, w) sw'"
proof (cases x)
  case (GetObject db i now)
  with assms show ?thesis using grows_getObject[of s w db i now] by auto
next
  case (Resume ret i now)
  with assms show ?thesis using grows_getObject_resume[of s w ret i now] by auto
next
  case (UpdateObject ob now)
  with assms show ?thesis
    using grows_trans[OF grows_new_object[of s w ob]
            grows_storeObject[of s "snd (new_object ob w)" "nxt w" now]]
    by (auto simp: updateObject_def new_object_def)
next
  case (InvalidateObject i)
  with assms show ?thesis by (auto simp: invalidateObject_def grows_def split: if_splits)
next
  case Dispose
  with assms show ?thesis using grows_dispose[of s w] by auto
next
  case (TimerFire h now1 now2)
  have "grows (s, w) (s, clearTimeout h w)" by (simp add: grows_def clearTimeout_def)
  with assms TimerFire show ?thesis
    using grows_trans[OF _ grows_expire, of "(s, w)" s "clearTimeout h w" now1 now2]
    by (auto split: if_splits)
qed

lemma returned_getObject:
  "returned (getObject db i now (s, w)) =
     (case cache s i of
        Some c \<Rightarrow> Some (heap w c)
      | None \<Rightarrow>
          (case db i of
             Rejected e \<Rightarrow> None
           | Resolved None \<Rightarrow> None
           | Resolved (Some ob) \<Rightarrow> if oid ob = i then Some ob else None))"
proof (cases "cache s i")
  case (Some c)
  then show ?thesis by (simp add: returned_def getObject_hit extend_obj_def)
next
  case None
  show ?thesis
  proof (cases "db i")
    case (Rejected e)
    with None show ?thesis by (simp add: returned_def getObject_rejected)
  next
    case (Resolved ret)
    show ?thesis
    proof (cases ret)
      case None
      with \<open>cache s i = None\<close> Resolved show ?thesis
        by (simp add: returned_def getObject_absent)
    next
      case (Some ob)
      let ?w0 = "snd (new_object ob (w\<lparr>queries := queries w @ [i]\<rparr>))"
      let ?sw1 = "storeObject (nxt w) now (s, ?w0)"
      have w0: "heap ?w0 (nxt w) = ob" "nxt ?w0 = Suc (nxt w)"
        by (simp_all add: new_object_def)
      have c1: "cache (fst ?sw1) = (cache s)(oid ob \<mapsto> Suc (nxt w))"
        and h1: "heap (snd ?sw1) (Suc (nxt w)) = ob"
        by (simp_all add: storeObject_effects w0)
      have g: "getObject db i now (s, w) =
                 (Inr (fst (retrieveObject i ?sw1)), fst ?sw1, snd (retrieveObject i ?sw1))"
        using \<open>cache s i = None\<close> Resolved Some by (simp add: getObject_value Let_def)
      show ?thesis
      proof (cases "oid ob = i")
        case True
        with c1 have "cache (fst ?sw1) i = Some (Suc (nxt w))" by simp
        from retrieveObject_hit[OF this, of "snd ?sw1"] h1 True
        show ?thesis
          using \<open>cache s i = None\<close> Resolved Some
          by (simp add: returned_def g extend_obj_def)
      next
        case False
        with c1 \<open>cache s i = None\<close> have "cache (fst ?sw1) i = None" by simp
        from retrieveObject_miss[OF this, of "snd ?sw1"] False
        show ?thesis
          using \<open>cache s i = None\<close> Resolved Some
          by (simp add: returned_def g)
      qed
    qed
  qed
qed

lemma contents_mutate:
  "external x (s, w) \<Longrightarrow> contents (s, mutate x ob w) = contents (s, w)"
proof (rule ext)
  fix k
  assume "external x (s, w)"
  then have "cache s k \<noteq> Some x" by (simp add: external_def)
  then show "contents (s, mutate x ob w) k = contents (s, w) k"
    by (cases "cache s k") (auto simp: contents_def mutate_def)
qed

lemma heap_inv_mutate: "heap_inv (s, mutate x ob w) = heap_inv (s, w)"
  by (simp add: heap_inv_def mutate_def)

lemma returned_mutate:
  assumes "external x (s, w)"
  shows "returned (getObject db i now (s, mutate x ob w)) = returned (getObject db i now (s, w))"
proof (cases "cache s i")
  case None
  then show ?thesis by (simp add: returned_getObject)
next
  case (Some c)
  with assms have "c \<noteq> x" by (auto simp: external_def)
  with Some show ?thesis by (simp add: returned_getObject mutate_def)
qed

lemma getObject_result_external:
  assumes "heap_inv (s, w)" and "fst (getObject db i now (s, w)) = Inr (Some r)"
  shows "external r (snd (getObject db i now (s, w))) \<and> nxt w \<le> r
         \<and> cache (fst (snd (getObject db i now (s, w)))) i \<noteq> None"
proof (cases "cache s i")
  case (Some c)
  from assms(1) have "\<And>k. cache s k \<noteq> Some (nxt w)"
    by (fastforce simp: heap_inv_def)
  with Some assms(2) show ?thesis
    by (simp add: getObject_hit external_def extend_obj_def)
next
  case None
  show ?thesis
  proof (cases "db i")
    case (Rejected e)
    with None assms(2) show ?thesis by (simp add: getObject_rejected)
  next
    case (Resolved ret)
    show ?thesis
    proof (cases ret)
      case None
      with \<open>cache s i = None\<close> Resolved assms(2) show ?thesis
        by (simp add: getObject_absent)
    next
      case (Some ob)
      let ?w0 = "snd (new_object ob (w\<lparr>queries := queries w @ [i]\<rparr>))"
      let ?sw1 = "storeObject (nxt w) now (s, ?w0)"
      have w0: "heap ?w0 (nxt w) = ob" "nxt ?w0 = Suc (nxt w)"
        by (simp_all add: new_object_def)
      have c1: "cache (fst ?sw1) = (cache s)(oid ob \<mapsto> Suc (nxt w))"
        and n1: "nxt (snd ?sw1) = Suc (Suc (nxt w))"
        by (simp_all add: storeObject_effects w0)
      have g: "getObject db i now (s, w) =
                 (Inr (fst (retrieveObject i ?sw1)), fst ?sw1, snd (retrieveObject i ?sw1))"
        using \<open>cache s i = None\<close> Resolved Some by (simp add: getObject_value Let_def)
      from assms(1) have old: "\<And>k a. cache s k = Some a \<Longrightarrow> a < nxt w"
        by (simp add: heap_inv_def)
      show ?thesis
      proof (cases "oid ob = i")
        case True
        with c1 have "cache (fst ?sw1) i = Some (Suc (nxt w))" by simp
        from retrieveObject_hit[OF this, of "snd ?sw1"] assms(2)
        have r: "r = Suc (Suc (nxt w))"
          and rr: "retrieveObject i ?sw1 = (Some (Suc (Suc (nxt w))), snd (extend_obj (Suc (nxt w)) (snd ?sw1)))"
          by (simp_all add: g n1)
        have "cache (fst ?sw1) k \<noteq> Some r" for k
          using old[of k r] by (auto simp: c1 r)
        then show ?thesis
          using True by (simp add: g rr external_def extend_obj_def n1 r c1)
      next
        case False
        with c1 \<open>cache s i = None\<close> have "cache (fst ?sw1) i = None" by simp
        from retrieveObject_miss[OF this, of "snd ?sw1"] assms(2)
        show ?thesis by (simp add: g)
      qed
    qed
  qed
qed

lemma getObject_source_external:
  assumes "heap_inv (s, w)" and "cache s i = None" and "db i = Resolved (Some ob)"
  shows "external (nxt w) (snd (getObject db i now (s, w)))"
proof -
  let ?w0 = "snd (new_object ob (w\<lparr>queries := queries w @ [i]\<rparr>))"
  have "external (nxt w) (s, ?w0)"
    using assms(1) by (fastforce simp: external_def new_object_def heap_inv_def)
  moreover have "grows (s, ?w0) (storeObject (nxt w) now (s, ?w0))"
    by (rule grows_storeObject)
  moreover have "grows (storeObject (nxt w) now (s, ?w0))
     (fst (storeObject (nxt w) now (s, ?w0)), snd (retrieveObject i (storeObject (nxt w) now (s, ?w0))))"
    using grows_retrieveObject[of "fst (storeObject (nxt w) now (s, ?w0))"
            "snd (storeObject (nxt w) now (s, ?w0))" i] by simp
  ultimately show ?thesis
    using assms(2,3) by (simp add: getObject_value Let_def) (blast intro: grows_external)
qed

lemma getObject_returns_contents:
  assumes "heap_inv (s, w)" and "fst (getObject db i now (s, w)) = Inr (Some r)"
  shows "contents (snd (getObject db i now (s, w))) i = returned (getObject db i now (s, w))"
proof (cases "cache s i")
  case (Some c)
  with assms(1) have "c \<noteq> nxt w" by (fastforce simp: heap_inv_def)
  with Some show ?thesis
    by (simp add: returned_getObject) (simp add: getObject_hit contents_def extend_obj_def)
next
  case None
  show ?thesis
  proof (cases "db i")
    case (Rejected e)
    with None assms(2) show ?thesis by (simp add: getObject_rejected)
  next
    case (Resolved ret)
    show ?thesis
    proof (cases ret)
      case None
      with \<open>cache s i = None\<close> Resolved assms(2) show ?thesis
        by (simp add: getObject_absent)
    next
      case (Some ob)
      let ?w0 = "snd (new_object ob (w\<lparr>queries := queries w @ [i]\<rparr>))"
      let ?sw1 = "storeObject (nxt w) now (s, ?w0)"
      have w0: "heap ?w0 (nxt w) = ob" "nxt ?w0 = Suc (nxt w)"
        by (simp_all add: new_object_def)
      have c1: "cache (fst ?sw1) = (cache s)(oid ob \<mapsto> Suc (nxt w))"
        and h1: "heap (snd ?sw1) (Suc (nxt w)) = ob"
        and n1: "nxt (snd ?sw1) = Suc (Suc (nxt w))"
        by (simp_all add: storeObject_effects w0)
      have g: "getObject db i now (s, w) =
                 (Inr (fst (retrieveObject i ?sw1)), fst ?sw1, snd (retrieveObject i ?sw1))"
        using \<open>cache s i = None\<close> Resolved Some by (simp add: getObject_value Let_def)
      show ?thesis
      proof (cases "oid ob = i")
        case True
        with c1 have ci: "cache (fst ?sw1) i = Some (Suc (nxt w))" by simp
        have "contents (fst ?sw1, snd (retrieveObject i ?sw1)) i = Some ob"
          using ci h1 n1 retrieveObject_hit[OF ci, of "snd ?sw1"]
          by (simp add: contents_def extend_obj_def)
        moreover have "returned (getObject db i now (s, w)) = Some ob"
          using \<open>cache s i = None\<close> Resolved Some True by (simp add: returned_getObject)
        ultimately show ?thesis by (simp add: g)
      next
        case False
        with c1 \<open>cache s i = None\<close> have "cache (fst ?sw1) i = None" by simp
        from retrieveObject_miss[OF this, of "snd ?sw1"] assms(2)
        show ?thesis by (simp add: g)
      qed
    qed
  qed
qed

lemma returned_after_mutating_result:
  assumes "heap_inv (s, w)" and "fst (getObject db i now (s, w)) = Inr (Some r)"
  shows "returned (getObject db' i now'
           (fst (snd (getObject db i now (s, w))), mutate r ob (snd (snd (getObject db i now (s, w))))))
         = returned (getObject db i now (s, w))"
proof -
  let ?s1 = "fst (snd (getObject db i now (s, w)))" and ?w1 = "snd (snd (getObject db i now (s, w)))"
  from getObject_result_external[OF assms]
  have ext: "external r (?s1, ?w1)" and hit: "cache ?s1 i \<noteq> None"
    by simp_all
  from hit have "returned (getObject db' i now' (?s1, ?w1)) = contents (?s1, ?w1) i"
    using returned_getObject[of db' i now' ?s1 ?w1] by (auto simp: contents_def)
  with getObject_returns_contents[OF assms] returned_mutate[OF ext, of db' i now' ob]
  show ?thesis by simp
qed

lemma returned_after_mutating_input:
  assumes "external a (s, w)"
  shows "returned (getObject db (oid (heap w a)) now'
           (fst (updateObject a now (s, w)), mutate a ob (snd (updateObject a now (s, w)))))
         = Some (heap w a)"
proof -
  from assms have "a \<noteq> nxt w" by (simp add: external_def)
  then show ?thesis
    by (simp add: returned_getObject updateObject_def storeObject_effects mutate_def)
qed

text \<open>
  Claim C3. In a state where every cached reference is in use (as in every state a new
  cache reaches), take any reference that the entry store does not hold. Storing the object
  behind it with \<open>updateObject\<close> leaves the reference outside the entry store, which holds
  the value of the object under its identifier; assigning to the object afterwards changes
  neither what the entry store holds nor what a later \<open>getObject\<close> for that identifier
  returns. A reference that \<open>getObject\<close> returns is new and outside the entry store, as is
  the object the backing store resolved to; assigning to the returned object changes
  neither what the entry store holds nor what a later \<open>getObject\<close> for the identifier
  returns. A reference outside the entry store stays outside under every operation, and
  assigning to the object behind it never changes what the entry store holds or what
  \<open>getObject\<close> returns.
\<close>

theorem copy_isolation:
  assumes "heap_inv (s, w)"
  shows
  "(external a (s, w) \<longrightarrow>
       external a (updateObject a now (s, w))
     \<and> heap_inv (updateObject a now (s, w))
     \<and> contents (updateObject a now (s, w)) (oid (heap w a)) = Some (heap w a)
     \<and> contents (fst (updateObject a now (s, w)), mutate a ob' (snd (updateObject a now (s, w))))
         = contents (updateObject a now (s, w))
     \<and> returned (getObject db (oid (heap w a)) now'
          (fst (updateObject a now (s, w)), mutate a ob' (snd (updateObject a now (s, w)))))
         = Some (heap w a))
   \<and> (\<forall>r. fst (getObject db i now (s, w)) = Inr (Some r) \<longrightarrow>
         nxt w \<le> r
       \<and> external r (snd (getObject db i now (s, w)))
       \<and> heap_inv (snd (getObject db i now (s, w)))
       \<and> contents (fst (snd (getObject db i now (s, w))),
                    mutate r ob' (snd (snd (getObject db i now (s, w)))))
           = contents (snd (getObject db i now (s, w)))
       \<and> returned (getObject db i now'
            (fst (snd (getObject db i now (s, w))),
             mutate r ob' (snd (snd (getObject db i now (s, w))))))
           = returned (getObject db i now (s, w)))
   \<and> (cache s i = None \<and> db i = Resolved (Some ob) \<longrightarrow>
         external (nxt w) (snd (getObject db i now (s, w))))
   \<and> (external x (s, w) \<and> apply_op op (s, w) = Some sw' \<longrightarrow> external x sw')
   \<and> (external x (s, w) \<longrightarrow>
         contents (s, mutate x ob' w) = contents (s, w)
       \<and> heap_inv (s, mutate x ob' w)
       \<and> returned (getObject db i now (s, mutate x ob' w)) = returned (getObject db i now (s, w)))"
proof (intro conjI impI allI)
  assume e: "external a (s, w)"
  have g: "grows (s, w) (updateObject a now (s, w))"
    by (simp add: updateObject_def grows_storeObject)
  from e g show e': "external a (updateObject a now (s, w))"
    by (rule grows_external)
  from assms g show "heap_inv (updateObject a now (s, w))"
    by (rule grows_heap_inv)
  show "contents (updateObject a now (s, w)) (oid (heap w a)) = Some (heap w a)"
    by (simp add: contents_def updateObject_def storeObject_effects)
  from e' show "contents (fst (updateObject a now (s, w)), mutate a ob' (snd (updateObject a now (s, w))))
         = contents (updateObject a now (s, w))"
    using contents_mutate[of a "fst (updateObject a now (s, w))" "snd (updateObject a now (s, w))" ob']
    by simp
  from e show "returned (getObject db (oid (heap w a)) now'
          (fst (updateObject a now (s, w)), mutate a ob' (snd (updateObject a now (s, w)))))
         = Some (heap w a)"
    by (rule returned_after_mutating_input)
next
  fix r
  assume r: "fst (getObject db i now (s, w)) = Inr (Some r)"
  note x = getObject_result_external[OF assms r]
  from x show "nxt w \<le> r" by simp
  from x show "external r (snd (getObject db i now (s, w)))" by simp
  from assms grows_getObject show "heap_inv (snd (getObject db i now (s, w)))"
    by (rule grows_heap_inv)
  from x show "contents (fst (snd (getObject db i now (s, w))),
                    mutate r ob' (snd (snd (getObject db i now (s, w)))))
           = contents (snd (getObject db i now (s, w)))"
    using contents_mutate[of r "fst (snd (getObject db i now (s, w)))"
            "snd (snd (getObject db i now (s, w)))" ob']
    by simp
  from assms r show "returned (getObject db i now'
            (fst (snd (getObject db i now (s, w))),
             mutate r ob' (snd (snd (getObject db i now (s, w))))))
           = returned (getObject db i now (s, w))"
    by (rule returned_after_mutating_result)
next
  assume "cache s i = None \<and> db i = Resolved (Some ob)"
  with assms show "external (nxt w) (snd (getObject db i now (s, w)))"
    by (simp add: getObject_source_external)
next
  assume "external x (s, w) \<and> apply_op op (s, w) = Some sw'"
  then show "external x sw'"
    using grows_external[of x "(s, w)" sw'] grows_apply_op[of op s w sw'] by simp
next
  assume e: "external x (s, w)"
  then show "contents (s, mutate x ob' w) = contents (s, w)"
    by (rule contents_mutate)
  from assms show "heap_inv (s, mutate x ob' w)"
    by (simp add: heap_inv_mutate)
  from e show "returned (getObject db i now (s, mutate x ob' w)) = returned (getObject db i now (s, w))"
    by (rule returned_mutate)
qed

theorem copy_isolation_witness:
  "heap_inv (cache_ab, world_ab)
   \<and> external 0 (cache_ab, world_ab)
   \<and> contents (updateObject 0 500 (cache_ab, world_ab)) ''a'' = Some obj_a
   \<and> returned (getObject db_b ''a'' 600
        (fst (updateObject 0 500 (cache_ab, world_ab)),
         mutate 0 obj_b (snd (updateObject 0 500 (cache_ab, world_ab))))) = Some obj_a
   \<and> fst (getObject db_b ''a'' 500 (cache_ab, world_ab)) = Inr (Some 4)
   \<and> external 4 (snd (getObject db_b ''a'' 500 (cache_ab, world_ab)))
   \<and> returned (getObject db_b ''a'' 500 (cache_ab, world_ab)) = Some obj_a
   \<and> returned (getObject db_b ''a'' 600
        (fst (snd (getObject db_b ''a'' 500 (cache_ab, world_ab))),
         mutate 4 obj_b (snd (snd (getObject db_b ''a'' 500 (cache_ab, world_ab)))))) = Some obj_a
   \<and> cache cache_ab ''c'' = None \<and> db_a ''c'' = Resolved (Some obj_a)
   \<and> external 4 (snd (getObject db_a ''c'' 7 (cache_ab, world_ab)))
   \<and> external 2 (cache_ab, world_ab)
   \<and> apply_op (Dispose :: (unit, nat) op) (cache_ab, world_ab) = Some (dispose (cache_ab, world_ab))
   \<and> external 2 (dispose (cache_ab, world_ab))
   \<and> contents (cache_ab, mutate 2 obj_a world_ab) = contents (cache_ab, world_ab)"
proof -
  have hi: "heap_inv (cache_ab, world_ab)"
    by (simp add: heap_inv_def cache_ab_def world_ab_def)
  have e0: "external 0 (cache_ab, world_ab)" and e2: "external 2 (cache_ab, world_ab)"
    by (simp_all add: external_def cache_ab_def world_ab_def)
  have w: "heap world_ab 0 = obj_a" "oid obj_a = ''a''" "nxt world_ab = 4"
    by (simp_all add: world_ab_def obj_a_def)
  have ca: "cache cache_ab ''a'' = Some 1" and cc: "cache cache_ab ''c'' = None"
    by (simp_all add: cache_ab_def)
  have da: "db_a ''c'' = Resolved (Some obj_a)"
    by (simp add: db_a_def)
  have g: "fst (getObject db_b ''a'' 500 (cache_ab, world_ab)) = Inr (Some 4)"
    by (simp add: getObject_hit[OF ca] w)
  have rg: "returned (getObject db_b ''a'' 500 (cache_ab, world_ab)) = Some obj_a"
    by (simp add: returned_getObject ca world_ab_def)
  have ap: "apply_op (Dispose :: (unit, nat) op) (cache_ab, world_ab) = Some (dispose (cache_ab, world_ab))"
    by simp
  note t1 = copy_isolation[OF hi, where a = 0 and now = 500 and ob' = obj_b and db = db_b
              and now' = 600 and i = "''a''" and ob = obj_a and x = 2 and op = Dispose
              and sw' = "dispose (cache_ab, world_ab)"]
  note t2 = copy_isolation[OF hi, where a = 0 and now = 7 and ob' = obj_a and db = db_a
              and now' = 600 and i = "''c''" and ob = obj_a and x = 2 and op = Dispose
              and sw' = "dispose (cache_ab, world_ab)"]
  from t1 e0 w have a1: "contents (updateObject 0 500 (cache_ab, world_ab)) ''a'' = Some obj_a"
    and a2: "returned (getObject db_b ''a'' 600
        (fst (updateObject 0 500 (cache_ab, world_ab)),
         mutate 0 obj_b (snd (updateObject 0 500 (cache_ab, world_ab))))) = Some obj_a"
    by simp_all
  from t1 g rg have b1: "external 4 (snd (getObject db_b ''a'' 500 (cache_ab, world_ab)))"
    and b2: "returned (getObject db_b ''a'' 600
        (fst (snd (getObject db_b ''a'' 500 (cache_ab, world_ab))),
         mutate 4 obj_b (snd (snd (getObject db_b ''a'' 500 (cache_ab, world_ab)))))) = Some obj_a"
    by simp_all
  from t2 cc da w have c1: "external 4 (snd (getObject db_a ''c'' 7 (cache_ab, world_ab)))"
    by simp
  from t2 e2 ap have d1: "external 2 (dispose (cache_ab, world_ab))"
    and d2: "contents (cache_ab, mutate 2 obj_a world_ab) = contents (cache_ab, world_ab)"
    by simp_all
  from hi e0 e2 a1 a2 g rg b1 b2 cc da c1 ap d1 d2 show ?thesis
    by simp
qed

subsection \<open>Failure of the backing store\<close>

lemma getObject_queries:
  "queries (snd (snd (getObject db i now (s, w)))) =
     (if cache s i = None then queries w @ [i] else queries w)"
proof (cases "cache s i")
  case (Some c)
  then show ?thesis by (simp add: getObject_hit extend_obj_def)
next
  case None
  show ?thesis
  proof (cases "db i")
    case (Rejected e)
    with None show ?thesis by (simp add: getObject_rejected)
  next
    case (Resolved ret)
    show ?thesis
    proof (cases ret)
      case None
      with \<open>cache s i = None\<close> Resolved show ?thesis by (simp add: getObject_absent)
    next
      case (Some ob)
      let ?sw1 = "storeObject (nxt w) now (s, snd (new_object ob (w\<lparr>queries := queries w @ [i]\<rparr>)))"
      have q: "queries (snd ?sw1) = queries w @ [i]"
        by (simp add: storeObject_effects new_object_def)
      have "queries (snd (retrieveObject i ?sw1)) = queries (snd ?sw1)"
        using retrieveObject_hit[of "fst ?sw1" i _ "snd ?sw1"] retrieveObject_miss[of "fst ?sw1" i "snd ?sw1"]
        by (cases "cache (fst ?sw1) i") (simp_all add: extend_obj_def)
      with q \<open>cache s i = None\<close> Resolved Some show ?thesis
        by (simp add: getObject_value Let_def)
    qed
  qed
qed

text \<open>
  Claim C8. When the identifier is not cached and the query of the backing store is
  rejected, the promise of \<open>getObject\<close> is rejected with the same error, the backing store
  has been queried once, and the fields of the cache, the object store and the pending
  timeouts are what they were before the call. Nothing of the failure is kept: the next
  \<open>getObject\<close> for the identifier queries the backing store again and returns what it would
  have returned without the failed call.
\<close>

theorem getObject_failure_atomic:
  "cache s i = None \<Longrightarrow> db i = Rejected e \<Longrightarrow>
     getObject db i now (s, w) = (Inl e, s, w\<lparr>queries := queries w @ [i]\<rparr>)
   \<and> queries (snd (snd (getObject db' i now' (snd (getObject db i now (s, w))))))
       = queries w @ [i, i]
   \<and> returned (getObject db' i now' (snd (getObject db i now (s, w))))
       = returned (getObject db' i now' (s, w))"
proof -
  assume c: "cache s i = None" and d: "db i = Rejected e"
  then have g: "getObject db i now (s, w) = (Inl e, s, w\<lparr>queries := queries w @ [i]\<rparr>)"
    by (rule getObject_rejected)
  have "queries (snd (snd (getObject db' i now' (s, w\<lparr>queries := queries w @ [i]\<rparr>))))
          = queries w @ [i, i]"
    using c by (simp add: getObject_queries)
  moreover have "returned (getObject db' i now' (s, w\<lparr>queries := queries w @ [i]\<rparr>))
          = returned (getObject db' i now' (s, w))"
    using c by (simp add: returned_getObject)
  ultimately show ?thesis using g by simp
qed

theorem getObject_failure_atomic_witness:
  "cache cache_ab ''c'' = None \<and> db_fail ''c'' = Rejected ()
   \<and> getObject db_fail ''c'' 7 (cache_ab, world_ab)
       = (Inl (), cache_ab, world_ab\<lparr>queries := queries world_ab @ [''c'']\<rparr>)
   \<and> queries (snd (snd (getObject db_a ''c'' 8 (snd (getObject db_fail ''c'' 7 (cache_ab, world_ab))))))
       = [''c'', ''c'']"
proof -
  have c: "cache cache_ab ''c'' = None"
    by (simp add: cache_ab_def)
  have d: "db_fail ''c'' = Rejected ()"
    by (simp add: db_fail_def)
  have q: "queries world_ab = []"
    by (simp add: world_ab_def)
  note t = getObject_failure_atomic[of cache_ab "''c''" db_fail "()" 7 world_ab db_a 8, OF c d]
  from t have a: "getObject db_fail ''c'' 7 (cache_ab, world_ab)
       = (Inl (), cache_ab, world_ab\<lparr>queries := queries world_ab @ [''c'']\<rparr>)"
    by (rule conjunct1)
  from t have "queries (snd (snd (getObject db_a ''c'' 8 (snd (getObject db_fail ''c'' 7 (cache_ab, world_ab))))))
       = queries world_ab @ [''c'', ''c'']"
    by (rule conjunct2[THEN conjunct1])
  with q have b: "queries (snd (snd (getObject db_a ''c'' 8 (snd (getObject db_fail ''c'' 7 (cache_ab, world_ab))))))
       = [''c'', ''c'']"
    by simp
  from c d a b show ?thesis by (intro conjI)
qed

subsection \<open>Read-through\<close>



end
